theory Spec2Isabelle
  imports Complex_Main
begin

section \<open>Metric keys\<close>

text \<open>
  \<^verbatim>\<open>const key = `${nodeId}:${nodeType}:${flowId}`;\<close> (metrics-collector.js, recordMessage)
  and \<^verbatim>\<open>const [nodeId, nodeType, flowId] = key.split(':');\<close>
  (calculateMessagesPerSecond, calculateRealFlowMetrics, calculateRealNodeMetrics).
\<close>

definition mkKey :: "string \<Rightarrow> string \<Rightarrow> string \<Rightarrow> string" where
  "mkKey nodeId nodeType flowId = nodeId @ '':'' @ nodeType @ '':'' @ flowId"

text \<open>
  JavaScript's \<^verbatim>\<open>String.prototype.split\<close> with a one-character separator: the pieces
  between the separators, in order; a string without separator is the only piece, the
  empty string gives one empty piece. \<open>acc\<close> holds the current piece, reversed.
\<close>

fun split_acc :: "char \<Rightarrow> string \<Rightarrow> string \<Rightarrow> string list" where
  "split_acc sep acc [] = [rev acc]"
| "split_acc sep acc (x # xs) =
     (if x = sep then rev acc # split_acc sep [] xs else split_acc sep (x # acc) xs)"

definition split :: "string \<Rightarrow> string list" where
  "split key = split_acc (CHR '':'') [] key"

text \<open>
  Array destructuring \<^verbatim>\<open>const [a, b, c] = parts\<close>: elements 0, 1 and 2, \<^verbatim>\<open>undefined\<close>
  (here \<open>None\<close>) where the array is too short.
\<close>

fun nth_opt :: "'a list \<Rightarrow> nat \<Rightarrow> 'a option" where
  "nth_opt [] n = None"
| "nth_opt (x # xs) 0 = Some x"
| "nth_opt (x # xs) (Suc n) = nth_opt xs n"

definition destructure3 :: "string list \<Rightarrow> string option \<times> string option \<times> string option" where
  "destructure3 parts = (nth_opt parts 0, nth_opt parts 1, nth_opt parts 2)"

definition parseKey :: "string \<Rightarrow> string option \<times> string option \<times> string option" where
  "parseKey key = destructure3 (split key)"

section \<open>JavaScript Map: insertion-ordered association list\<close>

text \<open>
  A \<^verbatim>\<open>Map\<close> iterates in insertion order; \<^verbatim>\<open>set\<close> on a present key keeps its place.
\<close>

type_synonym ('k, 'v) jsmap = "('k \<times> 'v) list"

fun map_set :: "('k, 'v) jsmap \<Rightarrow> 'k \<Rightarrow> 'v \<Rightarrow> ('k, 'v) jsmap" where
  "map_set [] k v = [(k, v)]"
| "map_set ((k', v') # m) k v =
     (if k' = k then (k, v) # m else (k', v') # map_set m k v)"

definition map_get :: "('k, 'v) jsmap \<Rightarrow> 'k \<Rightarrow> 'v option" where
  "map_get m k = map_of m k"

definition map_delete :: "('k, 'v) jsmap \<Rightarrow> 'k \<Rightarrow> ('k, 'v) jsmap" where
  "map_delete m k = filter (\<lambda>e. fst e \<noteq> k) m"

text \<open>\<^verbatim>\<open>m.get(key) || 0\<close>: a missing key and a stored 0 both give 0.\<close>

definition get_or0 :: "('k, int) jsmap \<Rightarrow> 'k \<Rightarrow> int" where
  "get_or0 m k = (case map_get m k of None \<Rightarrow> 0 | Some v \<Rightarrow> if v = 0 then 0 else v)"

section \<open>JavaScript numbers passed to the histogram\<close>

datatype jsnum = Num rat | NaN | PosInfinity | NegInfinity

text \<open>\<^verbatim>\<open>Number.isFinite\<close>.\<close>

fun isFinite :: "jsnum \<Rightarrow> bool" where
  "isFinite (Num q) = True"
| "isFinite NaN = False"
| "isFinite PosInfinity = False"
| "isFinite NegInfinity = False"

section \<open>MetricsCollector (lib/metrics-collector.js)\<close>

type_synonym labels3 = "string \<times> string \<times> string"

datatype error = TypeError

record collector =
  collectInterval :: int
  flowsTotal :: int
  flowsActive :: int
  nodesTotal :: "string \<rightharpoonup> int"
  nodesActive :: "string \<rightharpoonup> int"
  messagesTotal :: "labels3 \<rightharpoonup> int"
  messagesPerSecond :: "(string option \<times> string option \<times> string option) \<rightharpoonup> rat"
  errorsTotal :: "(labels3 \<times> string) \<rightharpoonup> int"
  nodeExecutionTime :: "labels3 \<rightharpoonup> jsnum list"
  messageCounters :: "(string, int) jsmap"
  lastMessageCounts :: "(string, int) jsmap"

text \<open>
  The constructor and \<^verbatim>\<open>initializeMetrics\<close>: the two unlabelled gauges start at 0, the
  labelled instruments and both maps start empty. \<open>ci\<close> is \<^verbatim>\<open>options.collectInterval\<close>
  (default 5000).
\<close>

definition new_collector :: "int \<Rightarrow> collector" where
  "new_collector ci =
     \<lparr> collectInterval = ci, flowsTotal = 0, flowsActive = 0,
       nodesTotal = Map.empty, nodesActive = Map.empty,
       messagesTotal = Map.empty, messagesPerSecond = Map.empty,
       errorsTotal = Map.empty, nodeExecutionTime = Map.empty,
       messageCounters = [], lastMessageCounts = [] \<rparr>"

text \<open>prom-client \<^verbatim>\<open>Counter.inc(labels)\<close>: add 1 to the value of the label set.\<close>

definition inc :: "('l \<rightharpoonup> int) \<Rightarrow> 'l \<Rightarrow> ('l \<rightharpoonup> int)" where
  "inc cnt l = cnt(l \<mapsto> (case cnt l of None \<Rightarrow> 0 | Some v \<Rightarrow> v) + 1)"

definition recordMessage :: "collector \<Rightarrow> string \<Rightarrow> string \<Rightarrow> string \<Rightarrow> collector" where
  "recordMessage c nodeId nodeType flowId =
     (let key = mkKey nodeId nodeType flowId in
      c\<lparr> messagesTotal := inc (messagesTotal c) (nodeId, nodeType, flowId),
         messageCounters :=
           map_set (messageCounters c) key (get_or0 (messageCounters c) key + 1) \<rparr>)"

definition recordError :: "collector \<Rightarrow> string \<Rightarrow> string \<Rightarrow> string \<Rightarrow> string \<Rightarrow> collector" where
  "recordError c nodeId nodeType flowId errorType =
     c\<lparr> errorsTotal := inc (errorsTotal c) ((nodeId, nodeType, flowId), errorType) \<rparr>"

text \<open>
  \<^verbatim>\<open>recordNodeExecution\<close> hands the duration to prom-client's
  \<^verbatim>\<open>Histogram.observe(labels, value)\<close> and checks nothing itself.  The library (not part
  of this repository) throws a \<^verbatim>\<open>TypeError\<close> unless \<^verbatim>\<open>Number.isFinite(value)\<close>, and
  otherwise adds the value to the buckets, the sum and the count of the label set; the
  histogram is kept here as the list of observed values, newest last.
\<close>

definition observe :: "(labels3 \<rightharpoonup> jsnum list) \<Rightarrow> labels3 \<Rightarrow> jsnum \<Rightarrow> error + (labels3 \<rightharpoonup> jsnum list)" where
  "observe h l v =
     (if \<not> isFinite v then Inl TypeError
      else Inr (h(l \<mapsto> (case h l of None \<Rightarrow> [] | Some vs \<Rightarrow> vs) @ [v])))"

definition recordNodeExecution ::
  "collector \<Rightarrow> string \<Rightarrow> string \<Rightarrow> string \<Rightarrow> jsnum \<Rightarrow> error + collector" where
  "recordNodeExecution c nodeId nodeType flowId duration =
     (case observe (nodeExecutionTime c) (nodeId, nodeType, flowId) duration of
        Inl e \<Rightarrow> Inl e
      | Inr h \<Rightarrow> Inr (c\<lparr> nodeExecutionTime := h \<rparr>))"

subsection \<open>Rate calculation\<close>

text \<open>
  One pass of the loop of \<^verbatim>\<open>calculateMessagesPerSecond\<close> for the entry
  \<^verbatim>\<open>[key, currentCount]\<close>. The divisor is the literal 5 of the source
  (\<^verbatim>\<open>// 5 second intervals\<close>); \<^verbatim>\<open>start()\<close> arms the tick with the literal 5000 ms.
  Rates are exact rationals here (the source divides doubles).
\<close>

definition tick_step :: "string \<times> int \<Rightarrow> collector \<Rightarrow> collector" where
  "tick_step e c =
     (let key = fst e; currentCount = snd e;
          lastCount = get_or0 (lastMessageCounts c) key;
          rate = of_int (max 0 (currentCount - lastCount)) / 5
      in c\<lparr> messagesPerSecond := (messagesPerSecond c)(parseKey key \<mapsto> rate),
            lastMessageCounts := map_set (lastMessageCounts c) key currentCount \<rparr>)"

definition calculateMessagesPerSecond :: "collector \<Rightarrow> collector" where
  "calculateMessagesPerSecond c = fold tick_step (messageCounters c) c"

text \<open>
  The rate as the specification words it: the clamped difference divided by the
  configured collection interval (milliseconds) converted to seconds.
\<close>

definition spec_rate :: "int \<Rightarrow> int \<Rightarrow> int \<Rightarrow> rat" where
  "spec_rate intervalMs currentTotal previousSample =
     of_int (max 0 (currentTotal - previousSample)) / (of_int intervalMs / 1000)"

subsection \<open>Inventory derived from the counter keys\<close>

text \<open>A JavaScript \<^verbatim>\<open>Set\<close>: insertion-ordered, no duplicates.\<close>

definition set_add :: "'a list \<Rightarrow> 'a \<Rightarrow> 'a list" where
  "set_add s x = (if x \<in> set s then s else s @ [x])"

text \<open>\<^verbatim>\<open>x && x !== 'undefined'\<close> for a destructured field.\<close>

definition usable :: "string option \<Rightarrow> bool" where
  "usable x = (case x of None \<Rightarrow> False | Some s \<Rightarrow> s \<noteq> [] \<and> s \<noteq> ''undefined'')"

definition nodeId_of :: "string \<Rightarrow> string option" where
  "nodeId_of key = fst (parseKey key)"

definition nodeType_of :: "string \<Rightarrow> string option" where
  "nodeType_of key = fst (snd (parseKey key))"

definition flowId_of :: "string \<Rightarrow> string option" where
  "flowId_of key = snd (snd (parseKey key))"

record flow_metrics =
  totalFlows :: int
  activeFlows :: int
  flowIds :: "string list"

definition flow_step :: "string \<times> int \<Rightarrow> string list \<Rightarrow> string list" where
  "flow_step e uniqueFlows =
     (case flowId_of (fst e) of
        None \<Rightarrow> uniqueFlows
      | Some flowId \<Rightarrow>
          if flowId \<noteq> [] \<and> flowId \<noteq> ''undefined'' then set_add uniqueFlows flowId
          else uniqueFlows)"

definition calculateRealFlowMetrics :: "collector \<Rightarrow> flow_metrics" where
  "calculateRealFlowMetrics c =
     (let uniqueFlows = fold flow_step (messageCounters c) [];
          total = int (length uniqueFlows);
          active = total
      in \<lparr> totalFlows = total, activeFlows = active, flowIds = uniqueFlows \<rparr>)"

subsection \<open>Plain objects used as dictionaries\<close>

text \<open>
  \<^verbatim>\<open>nodeTypes\<close> and \<^verbatim>\<open>activeNodeTypes\<close> are plain objects (\<^verbatim>\<open>{}\<close>) indexed by the type
  name, so a read that finds no own property falls through to \<^verbatim>\<open>Object.prototype\<close>.
  A value read from such an object is \<^verbatim>\<open>undefined\<close>, a number, a string, or a member of
  the prototype (a function, or for \<^verbatim>\<open>__proto__\<close> the prototype itself), kept here by the
  text \<^verbatim>\<open>String()\<close> gives for it.
\<close>

datatype jsval = JUndefined | JNum int | JStr string | JMember string

type_synonym jsobject = "(string, jsval) jsmap"

text \<open>
  The members of \<^verbatim>\<open>Object.prototype\<close> in Node.js, each with its \<^verbatim>\<open>String()\<close> text.
\<close>

definition prototype_member :: "string \<Rightarrow> string option" where
  "prototype_member name =
     (if name = ''__proto__'' then Some ''[object Object]''
      else if name = ''constructor'' then Some ''function Object() { [native code] }''
      else if name \<in> set [''__defineGetter__'', ''__defineSetter__'', ''hasOwnProperty'',
                          ''__lookupGetter__'', ''__lookupSetter__'', ''isPrototypeOf'',
                          ''propertyIsEnumerable'', ''toString'', ''valueOf'', ''toLocaleString'']
      then Some (''function '' @ name @ ''() { [native code] }'')
      else None)"

text \<open>\<^verbatim>\<open>obj[name]\<close>: the own property, else the inherited member, else \<^verbatim>\<open>undefined\<close>.\<close>

definition obj_get :: "jsobject \<Rightarrow> string \<Rightarrow> jsval" where
  "obj_get obj name =
     (case map_get obj name of
        Some v \<Rightarrow> v
      | None \<Rightarrow> (case prototype_member name of Some txt \<Rightarrow> JMember txt | None \<Rightarrow> JUndefined))"

text \<open>
  \<^verbatim>\<open>obj[name] = v\<close> for a number or string \<open>v\<close>: an own property is created or
  overwritten, except that assigning to \<^verbatim>\<open>__proto__\<close> runs the inherited setter, which
  ignores a value that is neither an object nor null.
\<close>

definition obj_set :: "jsobject \<Rightarrow> string \<Rightarrow> jsval \<Rightarrow> jsobject" where
  "obj_set obj name v = (if name = ''__proto__'' then obj else map_set obj name v)"

text \<open>
  \<^verbatim>\<open>(v || 0) + 1\<close>: \<^verbatim>\<open>undefined\<close>, 0 and the empty string are falsy and give 1; a number
  is incremented; a non-empty string or a prototype member is truthy and \<^verbatim>\<open>+\<close> appends
  \<^verbatim>\<open>'1'\<close> to its text.
\<close>

definition or0_plus1 :: "jsval \<Rightarrow> jsval" where
  "or0_plus1 v =
     (case v of
        JUndefined \<Rightarrow> JNum 1
      | JNum n \<Rightarrow> JNum (n + 1)
      | JStr s \<Rightarrow> if s = [] then JNum 1 else JStr (s @ ''1'')
      | JMember txt \<Rightarrow> JStr (txt @ ''1''))"

text \<open>
  \<^verbatim>\<open>Object.keys(obj)\<close>: the own keys that are array indices (canonical decimal numerals
  below \<open>2^32 - 1\<close>) in ascending numeric order, then the other keys in creation order.
\<close>

definition is_digit :: "char \<Rightarrow> bool" where
  "is_digit ch \<longleftrightarrow> ch \<in> set ''0123456789''"

definition decimal_value :: "string \<Rightarrow> int" where
  "decimal_value s = fold (\<lambda>ch acc. 10 * acc + (of_char ch - 48)) s 0"

definition array_index :: "string \<Rightarrow> int option" where
  "array_index s =
     (if s = [] \<or> \<not> list_all is_digit s \<or> (hd s = CHR ''0'' \<and> s \<noteq> ''0'') then None
      else if decimal_value s < 4294967295 then Some (decimal_value s) else None)"

definition object_keys :: "jsobject \<Rightarrow> string list" where
  "object_keys obj =
     map fst (sort_key (\<lambda>e. case array_index (fst e) of Some i \<Rightarrow> i | None \<Rightarrow> 0)
                (filter (\<lambda>e. array_index (fst e) \<noteq> None) obj))
     @ map fst (filter (\<lambda>e. array_index (fst e) = None) obj)"

subsection \<open>Node inventory and the gauges\<close>

text \<open>\<^verbatim>\<open>uniqueNodes\<close> is a Set of node ids.\<close>

record node_metrics =
  nodeTypes :: jsobject
  activeNodeTypes :: jsobject
  totalNodes :: int

type_synonym node_acc = "jsobject \<times> jsobject \<times> string option list"

definition node_step :: "string \<times> int \<Rightarrow> node_acc \<Rightarrow> node_acc" where
  "node_step e acc =
     (case acc of (types, activeTypes, uniqueNodes) \<Rightarrow>
        (case nodeType_of (fst e) of
           None \<Rightarrow> acc
         | Some nodeType \<Rightarrow>
             if nodeType \<noteq> [] \<and> nodeType \<noteq> ''undefined'' then
               (obj_set types nodeType (or0_plus1 (obj_get types nodeType)),
                obj_set activeTypes nodeType (or0_plus1 (obj_get activeTypes nodeType)),
                set_add uniqueNodes (nodeId_of (fst e)))
             else acc))"

definition calculateRealNodeMetrics :: "collector \<Rightarrow> node_metrics" where
  "calculateRealNodeMetrics c =
     (case fold node_step (messageCounters c) ([], [], []) of
        (types, activeTypes, uniqueNodes) \<Rightarrow>
          \<lparr> nodeTypes = types, activeNodeTypes = activeTypes,
            totalNodes = int (length uniqueNodes) \<rparr>)"

text \<open>
  prom-client's \<^verbatim>\<open>Gauge.set(labels, value)\<close> (the library is not part of this repository)
  throws a \<^verbatim>\<open>TypeError\<close> unless \<^verbatim>\<open>typeof value === 'number'\<close>.
\<close>

definition gauge_set :: "(string \<rightharpoonup> int) \<Rightarrow> string \<Rightarrow> jsval \<Rightarrow> error + (string \<rightharpoonup> int)" where
  "gauge_set g type v = (case v of JNum n \<Rightarrow> Inr (g(type \<mapsto> n)) | _ \<Rightarrow> Inl TypeError)"

text \<open>
  The body of the \<^verbatim>\<open>forEach\<close> over \<^verbatim>\<open>Object.keys(nodeMetrics.nodeTypes)\<close>: the total gauge
  is set, then the active gauge. The result is the collector as the body leaves it and
  the error it threw, if any; what was set before a throw stays set.
\<close>

definition set_node_gauges :: "node_metrics \<Rightarrow> string \<Rightarrow> collector \<Rightarrow> collector \<times> error option" where
  "set_node_gauges nm type c =
     (case gauge_set (nodesTotal c) type (obj_get (nodeTypes nm) type) of
        Inl e \<Rightarrow> (c, Some e)
      | Inr totalGauge \<Rightarrow>
          (case gauge_set (nodesActive c) type (obj_get (activeNodeTypes nm) type) of
             Inl e \<Rightarrow> (c\<lparr> nodesTotal := totalGauge \<rparr>, Some e)
           | Inr activeGauge \<Rightarrow>
               (c\<lparr> nodesTotal := totalGauge, nodesActive := activeGauge \<rparr>, None)))"

text \<open>\<^verbatim>\<open>forEach\<close>: the body for each type in turn, left at the first throw.\<close>

fun forEach_type :: "node_metrics \<Rightarrow> string list \<Rightarrow> collector \<Rightarrow> collector \<times> error option" where
  "forEach_type nm [] c = (c, None)"
| "forEach_type nm (type # types) c =
     (case set_node_gauges nm type c of
        (c', Some e) \<Rightarrow> (c', Some e)
      | (c', None) \<Rightarrow> forEach_type nm types c')"

text \<open>
  \<^verbatim>\<open>updateMetricsFromRealData\<close>: the collector as the call leaves it, and either the
  error it threw or the object it returned. Its callers (\<^verbatim>\<open>collectFlowMetrics\<close>,
  \<^verbatim>\<open>collectNodeTypeMetrics\<close>) catch the error and go on with the collector as it is.
\<close>

definition updateMetricsFromRealData ::
  "collector \<Rightarrow> collector \<times> (error + flow_metrics \<times> node_metrics)" where
  "updateMetricsFromRealData c =
     (let flowMetrics = calculateRealFlowMetrics c;
          c1 = (if totalFlows flowMetrics > 0
                then c\<lparr> flowsTotal := totalFlows flowMetrics,
                        flowsActive := activeFlows flowMetrics \<rparr>
                else c);
          nodeMetrics = calculateRealNodeMetrics c1
      in if totalNodes nodeMetrics > 0 then
           (case forEach_type nodeMetrics (object_keys (nodeTypes nodeMetrics)) c1 of
              (c2, Some e) \<Rightarrow> (c2, Inl e)
            | (c2, None) \<Rightarrow> (c2, Inr (flowMetrics, nodeMetrics)))
         else (c1, Inr (flowMetrics, nodeMetrics)))"

text \<open>
  The inventory as the specification words it: one flow per distinct flowId among the
  keys, and for a node type one node per distinct nodeId observed with that type.
\<close>

definition spec_flows :: "string list \<Rightarrow> nat" where
  "spec_flows keys = card (flowId_of ` set keys)"

definition spec_nodes_of_type :: "string list \<Rightarrow> string \<Rightarrow> nat" where
  "spec_nodes_of_type keys t = card (nodeId_of ` {k \<in> set keys. nodeType_of k = Some t})"

text \<open>
  What the collector does between construction and any later moment: the public
  operations, in any order.
\<close>

inductive reachable :: "collector \<Rightarrow> bool" where
  fresh: "reachable (new_collector ci)"
| message: "reachable c \<Longrightarrow> reachable (recordMessage c n t f)"
| error: "reachable c \<Longrightarrow> reachable (recordError c n t f e)"
| execution: "reachable c \<Longrightarrow> recordNodeExecution c n t f d = Inr c' \<Longrightarrow> reachable c'"
| tick: "reachable c \<Longrightarrow> reachable (calculateMessagesPerSecond c)"
| update: "reachable c \<Longrightarrow> reachable (fst (updateMetricsFromRealData c))"

section \<open>NodeRedHooks (lib/node-red-hooks.js)\<close>

subsection \<open>State\<close>

text \<open>An entry of \<^verbatim>\<open>messageBatch\<close>: \<^verbatim>\<open>{ nodeId, nodeType, flowId, type }\<close>.\<close>

record batch_record =
  rec_nodeId :: string
  rec_nodeType :: string
  rec_flowId :: string
  rec_type :: string

text \<open>
  The timers of the Node.js event loop are part of the state: \<^verbatim>\<open>setTimeout\<close> and
  \<^verbatim>\<open>setInterval\<close> add an entry and return its handle, \<^verbatim>\<open>clearTimeout\<close> and
  \<^verbatim>\<open>clearInterval\<close> remove the entry of the handle they are given, and a timeout leaves
  the table when it fires. Assigning \<^verbatim>\<open>null\<close> to the field that held a handle removes
  nothing from the table.
\<close>

datatype callback = ProcessBatch | CleanupTimingEntries | PeriodicUpdate

record timer =
  timer_id :: nat
  timer_callback :: callback
  timer_due :: int
  timer_period :: "int option"

record hooks =
  batchSize :: nat
  flushInterval :: int
  maxTimingEntries :: nat
  updatePeriod :: int
  messageBatch :: "batch_record list"
  batchTimer :: "nat option"
  cleanupTimer :: "nat option"
  updateInterval :: "nat option"
  messageStartTimes :: "(string, int) jsmap"
  metricsCollector :: collector
  timers :: "timer list"
  nextTimerId :: nat
  flushCount :: nat

text \<open>
  \<open>flushCount\<close> is an observer added to the model: the number of times \<^verbatim>\<open>processBatch\<close>
  went past its empty-queue guard and drained records.
\<close>

definition setTimer :: "callback \<Rightarrow> int \<Rightarrow> int option \<Rightarrow> hooks \<Rightarrow> nat \<times> hooks" where
  "setTimer cb due period h =
     (nextTimerId h,
      h\<lparr> timers := timers h @
             [\<lparr> timer_id = nextTimerId h, timer_callback = cb, timer_due = due,
                timer_period = period \<rparr>],
         nextTimerId := Suc (nextTimerId h) \<rparr>)"

definition clearTimer :: "nat \<Rightarrow> hooks \<Rightarrow> hooks" where
  "clearTimer i h = h\<lparr> timers := filter (\<lambda>t. timer_id t \<noteq> i) (timers h) \<rparr>"

text \<open>The pending timers whose callback is \<^verbatim>\<open>processBatch\<close>.\<close>

definition flushTimers :: "hooks \<Rightarrow> timer list" where
  "flushTimers h = filter (\<lambda>t. timer_callback t = ProcessBatch) (timers h)"

subsection \<open>Construction\<close>

text \<open>
  The constructor at clock reading \<open>now\<close>: empty queue and timing table, no batch timer,
  and \<^verbatim>\<open>startCleanupTimer\<close> arms the 30-second cleanup interval.
\<close>

definition new_hooks :: "int \<Rightarrow> collector \<Rightarrow> nat \<Rightarrow> int \<Rightarrow> nat \<Rightarrow> int \<Rightarrow> hooks" where
  "new_hooks now mc bs fi mte ci =
     (let h = \<lparr> batchSize = bs, flushInterval = fi, maxTimingEntries = mte, updatePeriod = ci,
                messageBatch = [], batchTimer = None, cleanupTimer = None,
                updateInterval = None, messageStartTimes = [], metricsCollector = mc,
                timers = [], nextTimerId = 0, flushCount = 0 \<rparr>
      in case setTimer CleanupTimingEntries (now + 30000) (Some 30000) h of
           (i, h') \<Rightarrow> h'\<lparr> cleanupTimer := Some i \<rparr>)"

definition startPeriodicUpdates :: "int \<Rightarrow> hooks \<Rightarrow> hooks" where
  "startPeriodicUpdates now h =
     (case setTimer PeriodicUpdate (now + updatePeriod h) (Some (updatePeriod h)) h of
        (i, h') \<Rightarrow> h'\<lparr> updateInterval := Some i \<rparr>)"

subsection \<open>Timing-table cleanup\<close>

text \<open>
  \<^verbatim>\<open>entries.sort((a, b) => a[1] - b[1])\<close> is a stable sort by start time (\<open>sort_key\<close> is
  the stable insertion sort); \<^verbatim>\<open>slice(0, entries.length - maxTimingEntries)\<close> is taken only
  when the table is larger than the limit, so its end index is positive.
\<close>

definition cleanupTimingEntries :: "int \<Rightarrow> hooks \<Rightarrow> hooks" where
  "cleanupTimingEntries now h =
     (let maxAge = 60000;
          m = messageStartTimes h;
          m1 = (if length m > maxTimingEntries h then
                  (let entries = sort_key snd m;
                       toRemove = take (length entries - maxTimingEntries h) entries
                   in fold (\<lambda>e m'. map_delete m' (fst e)) toRemove m)
                else m);
          m2 = fold (\<lambda>e m'. if now - snd e > maxAge then map_delete m' (fst e) else m') m1 m1
      in h\<lparr> messageStartTimes := m2 \<rparr>)"

subsection \<open>Batching\<close>

definition processBatch :: "int \<Rightarrow> hooks \<Rightarrow> hooks" where
  "processBatch now h =
     (if messageBatch h = [] then h
      else
        (let batch = take (batchSize h) (messageBatch h);
             h1 = h\<lparr> messageBatch := drop (batchSize h) (messageBatch h),
                     metricsCollector :=
                       fold (\<lambda>r c. recordMessage c (rec_nodeId r) (rec_nodeType r) (rec_flowId r))
                         batch (metricsCollector h),
                     flushCount := Suc (flushCount h) \<rparr>
         in if messageBatch h1 \<noteq> [] then
              (case setTimer ProcessBatch (now + flushInterval h1) None h1 of
                 (i, h2) \<Rightarrow> h2\<lparr> batchTimer := Some i \<rparr>)
            else h1\<lparr> batchTimer := None \<rparr>))"

definition addToBatch :: "int \<Rightarrow> hooks \<Rightarrow> string \<Rightarrow> string \<Rightarrow> string \<Rightarrow> string \<Rightarrow> hooks" where
  "addToBatch now h nodeId nodeType flowId type =
     (let h1 = h\<lparr> messageBatch := messageBatch h @
                    [\<lparr> rec_nodeId = nodeId, rec_nodeType = nodeType, rec_flowId = flowId,
                       rec_type = type \<rparr>] \<rparr>
      in if length (messageBatch h1) \<ge> batchSize h1 then processBatch now h1
         else if batchTimer h1 = None then
           (case setTimer ProcessBatch (now + flushInterval h1) None h1 of
              (i, h2) \<Rightarrow> h2\<lparr> batchTimer := Some i \<rparr>)
         else h1)"

subsection \<open>Hook events\<close>

text \<open>
  The descriptor of a node in an event (\<^verbatim>\<open>source\<close>, \<^verbatim>\<open>destination\<close> or \<^verbatim>\<open>node\<close>):
  \<^verbatim>\<open>{ id, type, z, node? }\<close>, every field possibly missing.
\<close>

datatype descriptor =
  Descriptor (d_id: "string option") (d_type: "string option") (d_z: "string option")
    (d_node: "descriptor option")

record hook_event =
  ev_node :: "descriptor option"
  ev_msgid :: "string option"
  ev_error :: "string option option"

text \<open>\<^verbatim>\<open>a || b || dflt\<close> on strings: the first one that is present and not empty.\<close>

definition or_else :: "string option \<Rightarrow> string option \<Rightarrow> string \<Rightarrow> string" where
  "or_else a b dflt =
     (case a of
        Some s \<Rightarrow> if s \<noteq> [] then s else (case b of Some s' \<Rightarrow> if s' \<noteq> [] then s' else dflt | None \<Rightarrow> dflt)
      | None \<Rightarrow> (case b of Some s' \<Rightarrow> if s' \<noteq> [] then s' else dflt | None \<Rightarrow> dflt))"

text \<open>\<^verbatim>\<open>const node = ev.source?.node || ev.source\<close>.\<close>

definition inner_node :: "descriptor option \<Rightarrow> descriptor option" where
  "inner_node d = (case d of None \<Rightarrow> None | Some s \<Rightarrow> (case d_node s of Some n \<Rightarrow> Some n | None \<Rightarrow> Some s))"

definition ev_nodeId :: "hook_event \<Rightarrow> string" where
  "ev_nodeId ev = or_else (Option.bind (inner_node (ev_node ev)) d_id) (Option.bind (ev_node ev) d_id) ''unknown''"

definition ev_nodeType :: "hook_event \<Rightarrow> string" where
  "ev_nodeType ev = or_else (Option.bind (inner_node (ev_node ev)) d_type) (Option.bind (ev_node ev) d_type) ''unknown''"

definition ev_flowId :: "hook_event \<Rightarrow> string" where
  "ev_flowId ev = or_else (Option.bind (inner_node (ev_node ev)) d_z) (Option.bind (ev_node ev) d_z) ''unknown''"

text \<open>
  \<^verbatim>\<open>handleSendEvent\<close> at clock reading \<open>now\<close>; \<open>generated\<close> is what
  \<^verbatim>\<open>generateMessageId()\<close> would return (used when the event has no \<^verbatim>\<open>_msgid\<close>).
  Nothing inside the inner \<^verbatim>\<open>try\<close> throws, so its \<^verbatim>\<open>catch\<close> is not reached.
\<close>

definition handleSendEvent :: "int \<Rightarrow> string \<Rightarrow> hooks \<Rightarrow> hook_event \<Rightarrow> hooks" where
  "handleSendEvent now generated h ev =
     (let nodeId = ev_nodeId ev; nodeType = ev_nodeType ev; flowId = ev_flowId ev;
          messageId = or_else (ev_msgid ev) None generated;
          h1 = h\<lparr> metricsCollector := recordMessage (metricsCollector h) nodeId nodeType flowId \<rparr>;
          h2 = addToBatch now h1 nodeId nodeType flowId ''send'';
          timingKey = nodeId @ ''_'' @ messageId
      in h2\<lparr> messageStartTimes := map_set (messageStartTimes h2) timingKey now \<rparr>)"

definition handleReceiveEvent :: "int \<Rightarrow> string \<Rightarrow> hooks \<Rightarrow> hook_event \<Rightarrow> hooks" where
  "handleReceiveEvent now generated h ev =
     (let nodeId = ev_nodeId ev; nodeType = ev_nodeType ev; flowId = ev_flowId ev;
          h1 = addToBatch now h nodeId nodeType flowId ''receive'';
          messageId = or_else (ev_msgid ev) None generated;
          timingKey = nodeId @ ''_'' @ messageId
      in h1\<lparr> messageStartTimes := map_set (messageStartTimes h1) timingKey now \<rparr>)"

text \<open>
  \<^verbatim>\<open>handleCompleteEvent\<close>. \<^verbatim>\<open>if (startTime)\<close> skips a missing entry and a stored 0.
  A \<^verbatim>\<open>TypeError\<close> of the histogram leaves the \<^verbatim>\<open>try\<close> block for its \<^verbatim>\<open>catch\<close>, which
  records a \<^verbatim>\<open>complete_processing\<close> error.
\<close>

definition handleCompleteEvent :: "int \<Rightarrow> hooks \<Rightarrow> hook_event \<Rightarrow> hooks" where
  "handleCompleteEvent now h ev =
     (let nodeId = ev_nodeId ev; nodeType = ev_nodeType ev; flowId = ev_flowId ev;
          messageId = or_else (ev_msgid ev) None ''unknown'';
          h1 = addToBatch now h nodeId nodeType flowId ''complete'';
          timingKey = nodeId @ ''_'' @ messageId;
          timed =
            (case map_get (messageStartTimes h1) timingKey of
               None \<Rightarrow> Inr h1
             | Some startTime \<Rightarrow>
                 if startTime = 0 then Inr h1
                 else
                   (case recordNodeExecution (metricsCollector h1) nodeId nodeType flowId
                           (Num (of_int (now - startTime) / 1000)) of
                      Inl e \<Rightarrow> Inl e
                    | Inr c \<Rightarrow>
                        Inr (h1\<lparr> metricsCollector := c,
                                 messageStartTimes := map_delete (messageStartTimes h1) timingKey \<rparr>)))
      in case timed of
           Inl e \<Rightarrow>
             h1\<lparr> metricsCollector :=
                   recordError (metricsCollector h1) nodeId nodeType flowId ''complete_processing'' \<rparr>
         | Inr h2 \<Rightarrow>
             (case ev_error ev of
                None \<Rightarrow> h2
              | Some name \<Rightarrow>
                  h2\<lparr> metricsCollector :=
                        recordError (metricsCollector h2) nodeId nodeType flowId
                          (or_else name None ''execution'') \<rparr>))"

subsection \<open>Timers firing, shutdown\<close>

text \<open>
  The periodic update: \<^verbatim>\<open>collectFlowMetrics\<close> and \<^verbatim>\<open>collectNodeTypeMetrics\<close> each call
  \<^verbatim>\<open>updateMetricsFromRealData\<close> (the memory gauges are not modelled).
\<close>

definition periodicUpdate :: "hooks \<Rightarrow> hooks" where
  "periodicUpdate h =
     h\<lparr> metricsCollector :=
          fst (updateMetricsFromRealData (fst (updateMetricsFromRealData (metricsCollector h)))) \<rparr>"

definition run_callback :: "callback \<Rightarrow> int \<Rightarrow> hooks \<Rightarrow> hooks" where
  "run_callback cb now h =
     (case cb of
        ProcessBatch \<Rightarrow> processBatch now h
      | CleanupTimingEntries \<Rightarrow> cleanupTimingEntries now h
      | PeriodicUpdate \<Rightarrow> periodicUpdate h)"

text \<open>
  The event loop fires the pending timer with handle \<open>i\<close> at clock reading \<open>now\<close>, not
  before it is due: a timeout leaves the table, an interval is due again one period
  later; then the callback runs.
\<close>

definition fireTimer :: "int \<Rightarrow> nat \<Rightarrow> hooks \<Rightarrow> hooks" where
  "fireTimer now i h =
     (case find (\<lambda>t. timer_id t = i) (timers h) of
        None \<Rightarrow> h
      | Some t \<Rightarrow>
          if now < timer_due t then h
          else
            (let h1 = (case timer_period t of
                         None \<Rightarrow> clearTimer i h
                       | Some p \<Rightarrow>
                           h\<lparr> timers := map (\<lambda>t'. if timer_id t' = i then t'\<lparr> timer_due := now + p \<rparr> else t')
                                          (timers h) \<rparr>)
             in run_callback (timer_callback t) now h1))"

text \<open>\<^verbatim>\<open>if (this.x) { clearInterval(this.x); this.x = null; }\<close> for one handle field.\<close>

definition stop :: "int \<Rightarrow> hooks \<Rightarrow> hooks" where
  "stop now h =
     (let h1 = (case updateInterval h of
                  None \<Rightarrow> h | Some i \<Rightarrow> (clearTimer i h)\<lparr> updateInterval := None \<rparr>);
          h2 = (case cleanupTimer h1 of
                  None \<Rightarrow> h1 | Some i \<Rightarrow> (clearTimer i h1)\<lparr> cleanupTimer := None \<rparr>);
          h3 = (case batchTimer h2 of
                  None \<Rightarrow> h2 | Some i \<Rightarrow> (clearTimer i h2)\<lparr> batchTimer := None \<rparr>);
          h4 = processBatch now h3
      in h4\<lparr> messageStartTimes := [], messageBatch := [] \<rparr>)"

section \<open>Sequences of calls, invariants\<close>

text \<open>A sequence of \<^verbatim>\<open>recordMessage\<close> calls, first call first.\<close>

definition recordMessages :: "collector \<Rightarrow> labels3 list \<Rightarrow> collector" where
  "recordMessages c calls = fold (\<lambda>(n, t, f) c'. recordMessage c' n t f) calls c"

text \<open>
  A sequence of \<^verbatim>\<open>addToBatch\<close> calls, first call first, each with the clock reading at
  which it is made; the queue entry a call appends; and the \<^verbatim>\<open>forEach\<close> of
  \<^verbatim>\<open>processBatch\<close> over a batch.
\<close>

type_synonym enqueue = "int \<times> string \<times> string \<times> string \<times> string"

definition to_record :: "enqueue \<Rightarrow> batch_record" where
  "to_record e = (case e of (now, n, t, f, ty) \<Rightarrow>
     \<lparr> rec_nodeId = n, rec_nodeType = t, rec_flowId = f, rec_type = ty \<rparr>)"

definition addAll :: "hooks \<Rightarrow> enqueue list \<Rightarrow> hooks" where
  "addAll h es = fold (\<lambda>e h'. case e of (now, n, t, f, ty) \<Rightarrow> addToBatch now h' n t f ty) es h"

definition recordBatch :: "collector \<Rightarrow> batch_record list \<Rightarrow> collector" where
  "recordBatch c rs = fold (\<lambda>r c'. recordMessage c' (rec_nodeId r) (rec_nodeType r) (rec_flowId r)) rs c"

text \<open>The two active gauges agree with the two total gauges.\<close>

definition gauges_agree :: "collector \<Rightarrow> bool" where
  "gauges_agree c \<longleftrightarrow> flowsActive c = flowsTotal c \<and> nodesActive c = nodesTotal c"

section \<open>Example inputs\<close>

text \<open>
  A timing table of 1500 entries with distinct keys, entry \<open>i\<close> started at clock reading
  \<open>i\<close>, in an engine whose limit is 1000 entries.
\<close>

definition table1500 :: "(string, int) jsmap" where
  "table1500 = map (\<lambda>i. (replicate i (CHR ''m''), int i)) [0..<1500]"

definition hooks1500 :: hooks where
  "hooks1500 = (new_hooks 0 (new_collector 5000) 100 1000 1000 5000)\<lparr> messageStartTimes := table1500 \<rparr>"

text \<open>
  A collector with configured collection interval \<open>ci\<close> whose counter for \<^verbatim>\<open>n1:inject:f1\<close>
  stands at 80 and was sampled at 50 by the previous tick.
\<close>

definition tick_example :: "int \<Rightarrow> collector" where
  "tick_example ci = (new_collector ci)
     \<lparr> messageCounters := [(''n1:inject:f1'', 80)], lastMessageCounts := [(''n1:inject:f1'', 50)] \<rparr>"

text \<open>
  Collectors after a few \<^verbatim>\<open>recordMessage\<close> calls: three nodes in two flows; and one
  node seen once with its flow id and once without (the hooks then pass \<^verbatim>\<open>'unknown'\<close>).
\<close>

definition two_flows :: collector where
  "two_flows = recordMessages (new_collector 5000)
     [(''n1'', ''inject'', ''f1''), (''n2'', ''debug'', ''f1''), (''n3'', ''inject'', ''f2'')]"

definition unknown_flow :: collector where
  "unknown_flow = recordMessages (new_collector 5000)
     [(''n1'', ''inject'', ''f1''), (''n1'', ''inject'', ''unknown'')]"

text \<open>
  The send-then-complete scenario: an engine with batch size 100 and flush interval 100 ms,
  started at clock reading 0; a send event of node \<^verbatim>\<open>n1\<close> (type \<^verbatim>\<open>inject\<close>, flow \<^verbatim>\<open>f1\<close>)
  for message \<^verbatim>\<open>m1\<close> at 1000; the flush timer it armed (handle 2) fires when due, at 1100;
  the complete event with the same ids arrives at 1120, 120 ms after the send; the flush
  timer armed by the complete event (handle 3) fires at 1220.
\<close>

definition send_m1 :: hook_event where
  "send_m1 = \<lparr> ev_node = Some (Descriptor (Some ''n1'') (Some ''inject'') (Some ''f1'') None),
               ev_msgid = Some ''m1'', ev_error = None \<rparr>"

definition complete_m1 :: hook_event where
  "complete_m1 = \<lparr> ev_node = Some (Descriptor (Some ''n1'') (Some ''inject'') (Some ''f1'') None),
                   ev_msgid = Some ''m1'', ev_error = None \<rparr>"

definition engine0 :: hooks where
  "engine0 = startPeriodicUpdates 0 (new_hooks 0 (new_collector 5000) 100 100 1000 5000)"

definition engine_sent :: hooks where
  "engine_sent = handleSendEvent 1000 ''generated'' engine0 send_m1"

definition engine_flushed :: hooks where
  "engine_flushed = fireTimer 1100 2 engine_sent"

definition engine_completed :: hooks where
  "engine_completed = handleCompleteEvent 1120 engine_flushed complete_m1"

definition engine_flushed_again :: hooks where
  "engine_flushed_again = fireTimer 1220 3 engine_completed"

text \<open>
  Batching with batch size 3 and flush interval 1000 ms: four records enqueued at clock
  readings 10, 20, 30 and 40; and the engine stopped at 50, after the third.
\<close>

definition batch0 :: hooks where
  "batch0 = startPeriodicUpdates 0 (new_hooks 0 (new_collector 5000) 3 1000 1000 5000)"

definition batch1 :: hooks where
  "batch1 = addToBatch 10 batch0 ''n1'' ''inject'' ''f1'' ''send''"

definition batch2 :: hooks where
  "batch2 = addToBatch 20 batch1 ''n1'' ''inject'' ''f1'' ''send''"

definition batch3 :: hooks where
  "batch3 = addToBatch 30 batch2 ''n1'' ''inject'' ''f1'' ''send''"

definition batch4 :: hooks where
  "batch4 = addToBatch 40 batch3 ''n1'' ''inject'' ''f1'' ''send''"

definition stopped :: hooks where
  "stopped = stop 50 batch3"

text \<open>Three and two \<^verbatim>\<open>addToBatch\<close> calls for the engine with batch size 3.\<close>

definition three_sends :: "enqueue list" where
  "three_sends = [(10, ''n1'', ''inject'', ''f1'', ''send''), (20, ''n1'', ''inject'', ''f1'', ''send''),
                  (30, ''n2'', ''debug'', ''f1'', ''receive'')]"

definition two_sends :: "enqueue list" where
  "two_sends = [(10, ''n1'', ''inject'', ''f1'', ''send''), (20, ''n2'', ''debug'', ''f1'', ''receive'')]"

text \<open>
  A collector that has seen a node whose type is named \<^verbatim>\<open>constructor\<close>, between two
  nodes of ordinary types.
\<close>

definition constructor_type :: collector where
  "constructor_type = recordMessages (new_collector 5000)
     [(''n1'', ''inject'', ''f1''), (''n2'', ''constructor'', ''f1''), (''n3'', ''debug'', ''f1'')]"

section \<open>Helper lemmas\<close>

lemma split_acc_no_sep:
  "sep \<notin> set xs \<Longrightarrow> split_acc sep acc (xs @ sep # rest) = (rev acc @ xs) # split_acc sep [] rest"
  by (induction xs arbitrary: acc) auto

lemma split_acc_last: "sep \<notin> set xs \<Longrightarrow> split_acc sep acc xs = [rev acc @ xs]"
  by (induction xs arbitrary: acc) auto

lemma map_of_map_set: "map_of (map_set m k v) = (map_of m)(k \<mapsto> v)"
  by (induction m) auto

lemma get_or0_map_set:
  "get_or0 (map_set m k v) k' = (if k' = k then v else get_or0 m k')"
  by (simp add: get_or0_def map_get_def map_of_map_set)

lemma messageCounters_recordMessage:
  "get_or0 (messageCounters (recordMessage c n t f)) k =
     get_or0 (messageCounters c) k + (if mkKey n t f = k then 1 else 0)"
  by (simp add: recordMessage_def Let_def get_or0_map_set)

lemma recordMessages_snoc:
  "recordMessages c (calls @ [(n, t, f)]) = recordMessage (recordMessages c calls) n t f"
  by (simp add: recordMessages_def)

lemma messageCounters_recordMessages:
  "get_or0 (messageCounters (recordMessages c calls)) k =
     get_or0 (messageCounters c) k
       + int (length (filter (\<lambda>(n, t, f). mkKey n t f = k) calls))"
proof (induction calls rule: rev_induct)
  case Nil
  show ?case by (simp add: recordMessages_def)
next
  case (snoc call calls)
  obtain n t f where call: "call = (n, t, f)" by (cases call) auto
  show ?case
    unfolding call recordMessages_snoc messageCounters_recordMessage
    using snoc.IH by simp
qed

lemma get_or0_new_collector: "get_or0 (messageCounters (new_collector ci)) k = 0"
  by (simp add: new_collector_def get_or0_def map_get_def)

lemma fold_map_delete:
  "fold (\<lambda>e m'. map_delete m' (fst e)) rs m = filter (\<lambda>e. fst e \<notin> fst ` set rs) m"
proof (induction rs arbitrary: m)
  case Nil
  show ?case by simp
next
  case (Cons r rs)
  have "fold (\<lambda>e m'. map_delete m' (fst e)) (r # rs) m =
        filter (\<lambda>e. fst e \<notin> fst ` set rs) (map_delete m (fst r))"
    using Cons.IH by simp
  also have "\<dots> = filter (\<lambda>e. fst e \<notin> fst ` set (r # rs)) m"
    by (auto simp: map_delete_def intro: filter_cong)
  finally show ?case .
qed

lemma fold_map_delete_if:
  "fold (\<lambda>e m'. if P e then map_delete m' (fst e) else m') rs m =
     filter (\<lambda>e. fst e \<notin> fst ` {r \<in> set rs. P r}) m"
proof (induction rs arbitrary: m)
  case Nil
  show ?case by simp
next
  case (Cons r rs)
  let ?f = "\<lambda>e m'. if P e then map_delete m' (fst e) else m'"
  have "fold ?f (r # rs) m =
        filter (\<lambda>e. fst e \<notin> fst ` {r \<in> set rs. P r}) (?f r m)"
    using Cons.IH by simp
  also have "\<dots> = filter (\<lambda>e. fst e \<notin> fst ` {r' \<in> set (r # rs). P r'}) m"
    by (auto simp: map_delete_def intro: filter_cong)
  finally show ?case .
qed

lemma cleanup_char:
  "messageStartTimes (cleanupTimingEntries now h) =
     (let m = messageStartTimes h;
          m1 = (if length m > maxTimingEntries h
                then filter (\<lambda>e. fst e \<notin> fst ` set (take (length m - maxTimingEntries h) (sort_key snd m))) m
                else m)
      in filter (\<lambda>e. fst e \<notin> fst ` {r \<in> set m1. now - snd r > 60000}) m1)"
  by (simp add: cleanupTimingEntries_def Let_def fold_map_delete fold_map_delete_if)

lemma length_evicted:
  fixes m :: "(string, int) jsmap"
  assumes "limit < length m"
  shows "length (filter (\<lambda>e. fst e \<notin> fst ` set (take (length m - limit) (sort_key snd m))) m) \<le> limit"
proof -
  define xs where "xs = sort_key snd m"
  define k where "k = length m - limit"
  define P where "P = (\<lambda>e::string \<times> int. fst e \<in> fst ` set (take k xs))"
  have "length (filter P m) = length (filter P xs)"
    unfolding xs_def by (simp add: filter_sort)
  also have "\<dots> = length (filter P (take k xs)) + length (filter P (drop k xs))"
    by (metis append_take_drop_id filter_append length_append)
  also have "filter P (take k xs) = take k xs"
    by (rule filter_True) (simp add: P_def)
  finally have "length (filter P m) \<ge> k"
    using assms by (simp add: xs_def k_def)
  moreover have "length (filter P m) + length (filter (\<lambda>e. \<not> P e) m) = length m"
    by (simp add: sum_length_filter_compl)
  ultimately have "length (filter (\<lambda>e. \<not> P e) m) \<le> limit"
    using assms by (simp add: k_def)
  then show ?thesis
    by (simp add: P_def xs_def k_def)
qed

lemma set_evicted:
  fixes m :: "(string, int) jsmap"
  assumes "distinct (map fst m)"
  shows "set (filter (\<lambda>e. fst e \<notin> fst ` set (take k (sort_key snd m))) m) = set (drop k (sort_key snd m))"
    and "set m - set (drop k (sort_key snd m)) = set (take k (sort_key snd m))"
proof -
  define xs where "xs = sort_key snd m"
  have sxs: "set xs = set m" and dxs: "distinct xs"
    using assms by (auto simp: xs_def distinct_map)
  have inj: "inj_on fst (set m)"
    using assms by (simp add: distinct_map)
  have split: "set m = set (take k xs) \<union> set (drop k xs)"
    by (metis append_take_drop_id set_append sxs)
  have disj: "set (take k xs) \<inter> set (drop k xs) = {}"
    using dxs by (metis append_take_drop_id distinct_append)
  have key: "fst e \<in> fst ` set (take k xs) \<longleftrightarrow> e \<in> set (take k xs)" if "e \<in> set m" for e
  proof
    assume "fst e \<in> fst ` set (take k xs)"
    then obtain r where r: "r \<in> set (take k xs)" "fst r = fst e" by auto
    then have "r \<in> set m" using split by blast
    with inj that r(2) have "r = e" by (auto dest: inj_onD)
    with r show "e \<in> set (take k xs)" by simp
  qed auto
  show "set (filter (\<lambda>e. fst e \<notin> fst ` set (take k (sort_key snd m))) m) = set (drop k (sort_key snd m))"
    unfolding xs_def [symmetric] using key split disj by auto
  show "set m - set (drop k (sort_key snd m)) = set (take k (sort_key snd m))"
    unfolding xs_def [symmetric] using split disj by auto
qed

lemma take_drop_sorted:
  fixes m :: "(string, int) jsmap"
  assumes "r \<in> set (take k (sort_key snd m))" and "e \<in> set (drop k (sort_key snd m))"
  shows "snd r \<le> snd e"
proof -
  define xs where "xs = sort_key snd m"
  have "sorted (map snd (take k xs @ drop k xs))"
    by (simp add: xs_def)
  then have "\<forall>a \<in> set (map snd (take k xs)). \<forall>b \<in> set (map snd (drop k xs)). a \<le> b"
    unfolding map_append sorted_append by blast
  then show ?thesis using assms unfolding xs_def by auto
qed

lemma fold_tick_last:
  "distinct (map fst es) \<Longrightarrow>
   map_of (lastMessageCounts (fold tick_step es c)) k =
     (case map_of es k of Some v \<Rightarrow> Some v | None \<Rightarrow> map_of (lastMessageCounts c) k)"
proof (induction es arbitrary: c)
  case Nil
  show ?case by simp
next
  case (Cons e es)
  have "map_of es (fst e) = None"
    using Cons.prems by (cases e) (auto simp: map_of_eq_None_iff)
  then show ?case
    using Cons.prems Cons.IH [of "tick_step e c"]
    by (cases e) (auto simp: tick_step_def Let_def map_of_map_set split: option.splits)
qed

lemma fold_tick_other:
  "\<forall>k' \<in> fst ` set es. parseKey k' \<noteq> l \<Longrightarrow>
   messagesPerSecond (fold tick_step es c) l = messagesPerSecond c l"
  by (induction es arbitrary: c) (auto simp: tick_step_def Let_def)

lemma get_or0_tick_step:
  "fst e \<noteq> k \<Longrightarrow> get_or0 (lastMessageCounts (tick_step e c)) k = get_or0 (lastMessageCounts c) k"
  by (simp add: tick_step_def Let_def get_or0_map_set)

lemma rate_tick_step:
  "messagesPerSecond (tick_step (k, cur) c) (parseKey k) =
     Some (of_int (max 0 (cur - get_or0 (lastMessageCounts c) k)) / 5)"
  by (simp add: tick_step_def Let_def)

lemma fold_tick_rate:
  "distinct (map fst es) \<Longrightarrow> (k, cur) \<in> set es \<Longrightarrow>
   \<forall>k' \<in> fst ` set es. parseKey k' = parseKey k \<longrightarrow> k' = k \<Longrightarrow>
   messagesPerSecond (fold tick_step es c) (parseKey k) =
     Some (of_int (max 0 (cur - get_or0 (lastMessageCounts c) k)) / 5)"
proof (induction es arbitrary: c)
  case Nil
  then show ?case by simp
next
  case (Cons e es)
  show ?case
  proof (cases "fst e = k")
    case True
    then have e: "e = (k, cur)"
      using Cons.prems(1,2) by (cases e) (auto simp: image_iff)
    have "\<forall>k' \<in> fst ` set es. parseKey k' \<noteq> parseKey k"
    proof
      fix k' assume k': "k' \<in> fst ` set es"
      then have "k' \<noteq> k" using Cons.prems(1) True by (auto simp: image_iff)
      moreover have "parseKey k' = parseKey k \<longrightarrow> k' = k"
        using Cons.prems(3) k' by auto
      ultimately show "parseKey k' \<noteq> parseKey k" by blast
    qed
    then have "messagesPerSecond (fold tick_step es (tick_step e c)) (parseKey k) =
               messagesPerSecond (tick_step e c) (parseKey k)"
      by (rule fold_tick_other)
    then show ?thesis
      by (simp add: e rate_tick_step)
  next
    case False
    then have mem: "(k, cur) \<in> set es"
      using Cons.prems(2) by auto
    have dist: "distinct (map fst es)"
      using Cons.prems(1) by simp
    have inj: "\<forall>k' \<in> fst ` set es. parseKey k' = parseKey k \<longrightarrow> k' = k"
      using Cons.prems(3) by simp
    have "messagesPerSecond (fold tick_step es (tick_step e c)) (parseKey k) =
       Some (of_int (max 0 (cur - get_or0 (lastMessageCounts (tick_step e c)) k)) / 5)"
      using dist mem inj by (rule Cons.IH)
    then show ?thesis
      using False by (simp add: get_or0_tick_step)
  qed
qed

lemma parse_example: "parseKey ''n1:inject:f1'' = (Some ''n1'', Some ''inject'', Some ''f1'')"
  by (simp add: parseKey_def split_def destructure3_def numeral_2_eq_2)

lemma set_add_simps [simp]:
  "set (set_add s x) = insert x (set s)" "distinct s \<Longrightarrow> distinct (set_add s x)"
  "(set_add s x = []) = False"
  by (auto simp: set_add_def)

lemma fold_flow_step:
  "set (fold flow_step es acc) =
     set acc \<union> {f. \<exists>e \<in> set es. flowId_of (fst e) = Some f \<and> f \<noteq> [] \<and> f \<noteq> ''undefined''}"
  "distinct acc \<Longrightarrow> distinct (fold flow_step es acc)"
proof (induction es arbitrary: acc)
  case Nil
  { case 1 show ?case by simp }
  { case 2 then show ?case by simp }
next
  case (Cons e es)
  { case 1
    show ?case
      unfolding fold_simps Cons.IH(1)
      by (auto simp: flow_step_def split: option.splits) }
  { case 2
    then have "distinct (flow_step e acc)"
      by (auto simp: flow_step_def split: option.splits)
    then show ?case
      unfolding fold_simps by (rule Cons.IH(2)) }
qed

lemma totalFlows_card:
  "totalFlows (calculateRealFlowMetrics c) =
     int (card {f. \<exists>k \<in> fst ` set (messageCounters c).
                 flowId_of k = Some f \<and> f \<noteq> [] \<and> f \<noteq> ''undefined''})"
proof -
  have "distinct (fold flow_step (messageCounters c) [])"
    by (simp add: fold_flow_step(2))
  then have "length (fold flow_step (messageCounters c) []) =
        card (set (fold flow_step (messageCounters c) []))"
    by (simp add: distinct_card)
  then show ?thesis
    by (simp add: calculateRealFlowMetrics_def Let_def fold_flow_step(1))
qed

lemma calculate_depends_on_counters:
  "messageCounters c = messageCounters c' \<Longrightarrow>
     calculateRealFlowMetrics c = calculateRealFlowMetrics c'
   \<and> calculateRealNodeMetrics c = calculateRealNodeMetrics c'"
  by (simp add: calculateRealFlowMetrics_def calculateRealNodeMetrics_def)

lemma activeFlows_eq: "activeFlows (calculateRealFlowMetrics c) = totalFlows (calculateRealFlowMetrics c)"
  by (simp add: calculateRealFlowMetrics_def Let_def)

lemma tick_gauges:
  "flowsTotal (fold tick_step es c) = flowsTotal c"
  "flowsActive (fold tick_step es c) = flowsActive c"
  "nodesTotal (fold tick_step es c) = nodesTotal c"
  "nodesActive (fold tick_step es c) = nodesActive c"
  by (induction es arbitrary: c) (simp_all add: tick_step_def Let_def)

lemma two_flows_counters:
  "messageCounters two_flows = [(''n1:inject:f1'', 1), (''n2:debug:f1'', 1), (''n3:inject:f2'', 1)]"
  by (simp add: two_flows_def recordMessages_def recordMessage_def new_collector_def Let_def
      mkKey_def get_or0_def map_get_def)

lemma reachable_recordMessages: "reachable c \<Longrightarrow> reachable (recordMessages c calls)"
proof (induction calls rule: rev_induct)
  case Nil
  then show ?case by (simp add: recordMessages_def)
next
  case (snoc call calls)
  then show ?case
    by (cases call) (auto simp: recordMessages_snoc intro: reachable.message)
qed

lemma parse_keys:
  "parseKey ''n1:inject:f1'' = (Some ''n1'', Some ''inject'', Some ''f1'')"
  "parseKey ''n2:debug:f1'' = (Some ''n2'', Some ''debug'', Some ''f1'')"
  "parseKey ''n3:inject:f2'' = (Some ''n3'', Some ''inject'', Some ''f2'')"
  "parseKey ''n1:inject:f2'' = (Some ''n1'', Some ''inject'', Some ''f2'')"
  by (simp_all add: parseKey_def split_def destructure3_def numeral_2_eq_2)

lemma unknown_flow_counters:
  "messageCounters unknown_flow = [(''n1:inject:f1'', 1), (''n1:inject:unknown'', 1)]"
  by (simp add: unknown_flow_def recordMessages_def recordMessage_def new_collector_def Let_def
      mkKey_def get_or0_def map_get_def)

lemma parse_unknown:
  "parseKey ''n1:inject:unknown'' = (Some ''n1'', Some ''inject'', Some ''unknown'')"
  by (simp add: parseKey_def split_def destructure3_def numeral_2_eq_2)

lemma messagesTotal_recordMessage:
  "(case messagesTotal (recordMessage c n t f) l of None \<Rightarrow> 0 | Some v \<Rightarrow> v) =
     (case messagesTotal c l of None \<Rightarrow> 0 | Some v \<Rightarrow> v) + (if (n, t, f) = l then 1 else 0)"
  by (simp add: recordMessage_def Let_def inc_def)

lemma messagesTotal_recordMessages:
  "(case messagesTotal (recordMessages c calls) l of None \<Rightarrow> 0 | Some v \<Rightarrow> v) =
     (case messagesTotal c l of None \<Rightarrow> 0 | Some v \<Rightarrow> v)
       + int (length (filter (\<lambda>call. call = l) calls))"
proof (induction calls rule: rev_induct)
  case Nil
  show ?case by (simp add: recordMessages_def)
next
  case (snoc call calls)
  obtain n t f where call: "call = (n, t, f)" by (cases call) auto
  show ?case
    unfolding call recordMessages_snoc messagesTotal_recordMessage
    using snoc.IH by simp
qed

lemma to_record_simp:
  "to_record (now, n, t, f, ty) =
     \<lparr> rec_nodeId = n, rec_nodeType = t, rec_flowId = f, rec_type = ty \<rparr>"
  by (simp add: to_record_def)

lemma find_append_None:
  "find P xs = None \<Longrightarrow> find P (xs @ ys) = find P ys"
  by (induction xs) (auto split: if_splits)

lemma addAll_Nil [simp]: "addAll h [] = h"
  by (simp add: addAll_def)

lemma addAll_Cons:
  "addAll h ((now, n, t, f, ty) # es) = addAll (addToBatch now h n t f ty) es"
  by (simp add: addAll_def)

lemma addAll_snoc:
  "addAll h (es @ [(now, n, t, f, ty)]) = addToBatch now (addAll h es) n t f ty"
  by (simp add: addAll_def)

lemma processBatch_all:
  assumes "messageBatch h \<noteq> []" and "length (messageBatch h) \<le> batchSize h"
  shows "processBatch now h =
         h\<lparr> messageBatch := [],
            metricsCollector := recordBatch (metricsCollector h) (messageBatch h),
            flushCount := Suc (flushCount h),
            batchTimer := None \<rparr>"
  using assms by (simp add: processBatch_def Let_def recordBatch_def)

lemma processBatch_empty: "messageBatch h = [] \<Longrightarrow> processBatch now h = h"
  by (simp add: processBatch_def)

lemma addToBatch_below:
  assumes "Suc (length (messageBatch h)) < batchSize h"
  shows "addToBatch now h n t f ty =
     (if batchTimer h = None
      then h\<lparr> messageBatch := messageBatch h @ [to_record (now, n, t, f, ty)],
              timers := timers h @
                [\<lparr> timer_id = nextTimerId h, timer_callback = ProcessBatch,
                   timer_due = now + flushInterval h, timer_period = None \<rparr>],
              nextTimerId := Suc (nextTimerId h),
              batchTimer := Some (nextTimerId h) \<rparr>
      else h\<lparr> messageBatch := messageBatch h @ [to_record (now, n, t, f, ty)] \<rparr>)"
  using assms by (simp add: addToBatch_def Let_def setTimer_def to_record_simp)

lemma addToBatch_full:
  assumes "Suc (length (messageBatch h)) = batchSize h"
  shows "addToBatch now h n t f ty =
     h\<lparr> messageBatch := [],
        metricsCollector := recordBatch (metricsCollector h)
          (messageBatch h @ [to_record (now, n, t, f, ty)]),
        flushCount := Suc (flushCount h),
        batchTimer := None \<rparr>"
  using assms by (simp add: addToBatch_def Let_def processBatch_def recordBatch_def to_record_simp)

lemma addAll_armed:
  assumes "batchTimer h \<noteq> None" and "length (messageBatch h) + length es < batchSize h"
  shows "addAll h es = h\<lparr> messageBatch := messageBatch h @ map to_record es \<rparr>"
  using assms
proof (induction es rule: rev_induct)
  case Nil
  show ?case by simp
next
  case (snoc e es)
  obtain now n t f ty where e: "e = (now, n, t, f, ty)" by (cases e) auto
  have "addAll h es = h\<lparr> messageBatch := messageBatch h @ map to_record es \<rparr>"
    using snoc by simp
  moreover have "batchTimer (h\<lparr> messageBatch := messageBatch h @ map to_record es \<rparr>) \<noteq> None"
    using snoc.prems(1) by simp
  ultimately show ?case
    using snoc.prems(2) by (simp add: e addAll_snoc addToBatch_below)
qed

lemma addAll_below:
  assumes "batchTimer h = None" and "messageBatch h = []" and "length es < batchSize h"
    and "es \<noteq> []"
  shows "addAll h es =
     h\<lparr> messageBatch := map to_record es,
        timers := timers h @
          [\<lparr> timer_id = nextTimerId h, timer_callback = ProcessBatch,
             timer_due = fst (hd es) + flushInterval h, timer_period = None \<rparr>],
        nextTimerId := Suc (nextTimerId h),
        batchTimer := Some (nextTimerId h) \<rparr>"
proof -
  obtain now n t f ty es' where es: "es = (now, n, t, f, ty) # es'"
    using assms(4) by (cases es) auto
  define h1 where "h1 = addToBatch now h n t f ty"
  have h1: "h1 = h\<lparr> messageBatch := [to_record (now, n, t, f, ty)],
              timers := timers h @
                [\<lparr> timer_id = nextTimerId h, timer_callback = ProcessBatch,
                   timer_due = now + flushInterval h, timer_period = None \<rparr>],
              nextTimerId := Suc (nextTimerId h),
              batchTimer := Some (nextTimerId h) \<rparr>"
    unfolding h1_def using assms(1,2,3) es
    by (simp add: addToBatch_below)
  have "addAll h1 es' = h1\<lparr> messageBatch := messageBatch h1 @ map to_record es' \<rparr>"
    using assms(3) es by (intro addAll_armed) (simp_all add: h1)
  then show ?thesis
    by (simp add: es addAll_Cons h1_def [symmetric]) (simp add: h1)
qed

lemma addAll_queue:
  assumes "length (messageBatch h) + length es < batchSize h"
  shows "messageBatch (addAll h es) = messageBatch h @ map to_record es
       \<and> flushCount (addAll h es) = flushCount h
       \<and> metricsCollector (addAll h es) = metricsCollector h
       \<and> batchSize (addAll h es) = batchSize h"
  using assms
proof (induction es rule: rev_induct)
  case Nil
  show ?case by simp
next
  case (snoc e es)
  obtain now n t f ty where e: "e = (now, n, t, f, ty)" by (cases e) auto
  have IH: "messageBatch (addAll h es) = messageBatch h @ map to_record es
       \<and> flushCount (addAll h es) = flushCount h
       \<and> metricsCollector (addAll h es) = metricsCollector h
       \<and> batchSize (addAll h es) = batchSize h"
    using snoc by simp
  then have "Suc (length (messageBatch (addAll h es))) < batchSize (addAll h es)"
    using snoc.prems by simp
  then show ?case
    using IH by (simp add: e addAll_snoc addToBatch_below)
qed

lemma processBatch_below:
  assumes "length (messageBatch h) < batchSize h"
  shows "length (messageBatch (processBatch now h)) < batchSize (processBatch now h)
       \<and> batchSize (processBatch now h) = batchSize h"
proof (cases "messageBatch h = []")
  case True
  then show ?thesis using assms by (simp add: processBatch_empty)
next
  case False
  then show ?thesis using assms by (simp add: processBatch_all)
qed

lemma addToBatch_keeps_below:
  assumes "length (messageBatch h) < batchSize h"
  shows "length (messageBatch (addToBatch now h n t f ty)) < batchSize (addToBatch now h n t f ty)
       \<and> batchSize (addToBatch now h n t f ty) = batchSize h"
proof (cases "Suc (length (messageBatch h)) < batchSize h")
  case True
  then show ?thesis by (simp add: addToBatch_below)
next
  case False
  then have "Suc (length (messageBatch h)) = batchSize h"
    using assms by simp
  then show ?thesis by (simp add: addToBatch_full)
qed

lemma handleSendEvent_queue:
  "messageBatch (handleSendEvent now g h ev) =
     messageBatch (addToBatch now
       (h\<lparr> metricsCollector := recordMessage (metricsCollector h) (ev_nodeId ev) (ev_nodeType ev) (ev_flowId ev) \<rparr>)
       (ev_nodeId ev) (ev_nodeType ev) (ev_flowId ev) ''send'')"
  "batchSize (handleSendEvent now g h ev) =
     batchSize (addToBatch now
       (h\<lparr> metricsCollector := recordMessage (metricsCollector h) (ev_nodeId ev) (ev_nodeType ev) (ev_flowId ev) \<rparr>)
       (ev_nodeId ev) (ev_nodeType ev) (ev_flowId ev) ''send'')"
  by (simp_all add: handleSendEvent_def Let_def)

lemma handleReceiveEvent_queue:
  "messageBatch (handleReceiveEvent now g h ev) =
     messageBatch (addToBatch now h (ev_nodeId ev) (ev_nodeType ev) (ev_flowId ev) ''receive'')"
  "batchSize (handleReceiveEvent now g h ev) =
     batchSize (addToBatch now h (ev_nodeId ev) (ev_nodeType ev) (ev_flowId ev) ''receive'')"
  by (simp_all add: handleReceiveEvent_def Let_def)

lemma handleCompleteEvent_queue:
  "messageBatch (handleCompleteEvent now h ev) =
     messageBatch (addToBatch now h (ev_nodeId ev) (ev_nodeType ev) (ev_flowId ev) ''complete'')"
  "batchSize (handleCompleteEvent now h ev) =
     batchSize (addToBatch now h (ev_nodeId ev) (ev_nodeType ev) (ev_flowId ev) ''complete'')"
  by (auto simp: handleCompleteEvent_def Let_def split: option.splits sum.splits)

lemma fireTimer_below:
  assumes "length (messageBatch h) < batchSize h"
  shows "length (messageBatch (fireTimer now i h)) < batchSize (fireTimer now i h)
       \<and> batchSize (fireTimer now i h) = batchSize h"
proof -
  have run: "length (messageBatch (run_callback cb now h')) < batchSize (run_callback cb now h')
       \<and> batchSize (run_callback cb now h') = batchSize h'"
    if "length (messageBatch h') < batchSize h'" for cb h'
    using that processBatch_below [of h' now]
    by (cases cb) (simp_all add: run_callback_def cleanupTimingEntries_def Let_def periodicUpdate_def)
  show ?thesis
  proof (cases "find (\<lambda>t. timer_id t = i) (timers h)")
    case None
    then show ?thesis using assms by (simp add: fireTimer_def)
  next
    case (Some t)
    show ?thesis
    proof (cases "now < timer_due t")
      case True
      then show ?thesis using assms Some by (simp add: fireTimer_def)
    next
      case False
      define h1 where "h1 = (case timer_period t of
                         None \<Rightarrow> clearTimer i h
                       | Some p \<Rightarrow>
                           h\<lparr> timers := map (\<lambda>t'. if timer_id t' = i then t'\<lparr> timer_due := now + p \<rparr> else t')
                                          (timers h) \<rparr>)"
      have h1: "messageBatch h1 = messageBatch h" "batchSize h1 = batchSize h"
        by (simp_all add: h1_def clearTimer_def split: option.splits)
      have "fireTimer now i h = run_callback (timer_callback t) now h1"
        using False Some by (simp add: fireTimer_def h1_def Let_def)
      then show ?thesis
        using run [of h1 "timer_callback t"] assms by (simp add: h1)
    qed
  qed
qed

lemma batch0_fields:
  "messageBatch batch0 = []" "batchSize batch0 = 3" "flushCount batch0 = 0"
  "batchTimer batch0 = None" "flushTimers batch0 = []" "nextTimerId batch0 = 2"
  "map timer_id (timers batch0) = [0, 1]" "flushInterval batch0 = 1000"
  "updateInterval batch0 = Some 1" "cleanupTimer batch0 = Some 0"
  "metricsCollector batch0 = new_collector 5000"
  by (simp_all add: batch0_def startPeriodicUpdates_def new_hooks_def setTimer_def flushTimers_def)

lemma node_fold_same:
  "fst (snd (fold node_step es (nt, nt, un))) = fst (fold node_step es (nt, nt, un))"
proof (induction es arbitrary: nt un)
  case Nil
  show ?case by simp
next
  case (Cons e es)
  have "\<exists>nt1 un1. node_step e (nt, nt, un) = (nt1, nt1, un1)"
    by (simp add: node_step_def split: option.splits)
  then obtain nt1 un1 where "node_step e (nt, nt, un) = (nt1, nt1, un1)"
    by blast
  then show ?case
    using Cons.IH [of nt1 un1] by simp
qed

lemma activeNodeTypes_eq:
  "activeNodeTypes (calculateRealNodeMetrics c) = nodeTypes (calculateRealNodeMetrics c)"
proof -
  obtain nt ant un where f: "fold node_step (messageCounters c) ([], [], []) = (nt, ant, un)"
    by (cases "fold node_step (messageCounters c) ([], [], [])") auto
  have "ant = nt"
    using node_fold_same [of "messageCounters c" "[]" "[]"] by (simp add: f)
  then show ?thesis
    by (simp add: calculateRealNodeMetrics_def f)
qed

lemma set_node_gauges_agree:
  assumes "activeNodeTypes nm = nodeTypes nm" and "gauges_agree c"
  shows "gauges_agree (fst (set_node_gauges nm t c))"
  using assms
  by (cases "obj_get (nodeTypes nm) t")
     (simp_all add: set_node_gauges_def gauge_set_def gauges_agree_def)

lemma forEach_type_agree:
  assumes "activeNodeTypes nm = nodeTypes nm"
  shows "gauges_agree c \<Longrightarrow> gauges_agree (fst (forEach_type nm ts c))"
proof (induction ts arbitrary: c)
  case Nil
  then show ?case by simp
next
  case (Cons t ts)
  have step: "gauges_agree (fst (set_node_gauges nm t c))"
    using assms Cons.prems by (rule set_node_gauges_agree)
  obtain c' r where s: "set_node_gauges nm t c = (c', r)"
    by (cases "set_node_gauges nm t c") auto
  show ?case
  proof (cases r)
    case None
    then show ?thesis
      using step Cons.IH [of c'] by (simp add: s)
  next
    case (Some e)
    then show ?thesis
      using step by (simp add: s)
  qed
qed

lemma update_state:
  "fst (updateMetricsFromRealData c) =
     (let c1 = (if 0 < totalFlows (calculateRealFlowMetrics c)
                then c\<lparr> flowsTotal := totalFlows (calculateRealFlowMetrics c),
                        flowsActive := activeFlows (calculateRealFlowMetrics c) \<rparr>
                else c)
      in if 0 < totalNodes (calculateRealNodeMetrics c)
         then fst (forEach_type (calculateRealNodeMetrics c)
                     (object_keys (nodeTypes (calculateRealNodeMetrics c))) c1)
         else c1)"
proof -
  have "calculateRealNodeMetrics
          (c\<lparr> flowsTotal := totalFlows (calculateRealFlowMetrics c),
              flowsActive := activeFlows (calculateRealFlowMetrics c) \<rparr>) =
        calculateRealNodeMetrics c"
    by (simp add: calculateRealNodeMetrics_def)
  then show ?thesis
    by (simp add: updateMetricsFromRealData_def Let_def split: prod.splits option.splits)
qed

lemma update_result:
  "snd (updateMetricsFromRealData c) = Inr r \<Longrightarrow>
     r = (calculateRealFlowMetrics c, calculateRealNodeMetrics c)"
proof -
  have "calculateRealNodeMetrics
          (c\<lparr> flowsTotal := totalFlows (calculateRealFlowMetrics c),
              flowsActive := activeFlows (calculateRealFlowMetrics c) \<rparr>) =
        calculateRealNodeMetrics c"
    by (simp add: calculateRealNodeMetrics_def)
  then show "snd (updateMetricsFromRealData c) = Inr r \<Longrightarrow>
     r = (calculateRealFlowMetrics c, calculateRealNodeMetrics c)"
    by (auto simp: updateMetricsFromRealData_def Let_def split: prod.splits option.splits if_splits)
qed

lemma update_gauges_agree:
  assumes "gauges_agree c"
  shows "gauges_agree (fst (updateMetricsFromRealData c))"
proof -
  define c1 where "c1 = (if 0 < totalFlows (calculateRealFlowMetrics c)
                then c\<lparr> flowsTotal := totalFlows (calculateRealFlowMetrics c),
                        flowsActive := activeFlows (calculateRealFlowMetrics c) \<rparr>
                else c)"
  have c1: "gauges_agree c1"
    using assms by (simp add: c1_def gauges_agree_def activeFlows_eq)
  have "gauges_agree (fst (forEach_type (calculateRealNodeMetrics c)
                     (object_keys (nodeTypes (calculateRealNodeMetrics c))) c1))"
    using activeNodeTypes_eq c1 by (rule forEach_type_agree)
  then show ?thesis
    using c1 by (simp add: update_state Let_def c1_def [symmetric])
qed

lemma reachable_gauges_agree: "reachable c \<Longrightarrow> gauges_agree c"
proof (induction rule: reachable.induct)
  case (fresh ci)
  show ?case by (simp add: gauges_agree_def new_collector_def)
next
  case (message c n t f)
  then show ?case by (simp add: gauges_agree_def recordMessage_def Let_def)
next
  case (error c n t f e)
  then show ?case by (simp add: gauges_agree_def recordError_def)
next
  case (execution c n t f d c')
  then show ?case
    by (auto simp: gauges_agree_def recordNodeExecution_def split: sum.splits)
next
  case (tick c)
  then show ?case
    by (simp add: gauges_agree_def calculateMessagesPerSecond_def tick_gauges)
next
  case (update c)
  from update.IH show ?case by (rule update_gauges_agree)
qed

lemma plain_type_names:
  "prototype_member ''inject'' = None" "prototype_member ''debug'' = None"
  "array_index ''inject'' = None" "array_index ''debug'' = None"
  by (simp_all add: prototype_member_def array_index_def is_digit_def)

lemma two_flows_nodeMetrics:
  "calculateRealNodeMetrics two_flows =
     \<lparr> nodeTypes = [(''inject'', JNum 2), (''debug'', JNum 1)],
       activeNodeTypes = [(''inject'', JNum 2), (''debug'', JNum 1)], totalNodes = 3 \<rparr>"
  by (simp add: calculateRealNodeMetrics_def two_flows_counters node_step_def
      nodeType_of_def nodeId_of_def parse_keys set_add_def obj_get_def obj_set_def
      or0_plus1_def map_get_def plain_type_names)

lemma two_flows_flowMetrics:
  "calculateRealFlowMetrics two_flows =
     \<lparr> totalFlows = 2, activeFlows = 2, flowIds = [''f1'', ''f2''] \<rparr>"
  by (simp add: calculateRealFlowMetrics_def Let_def two_flows_counters flow_step_def
      flowId_of_def parse_keys set_add_def)

lemma unknown_flow_nodeMetrics:
  "calculateRealNodeMetrics unknown_flow =
     \<lparr> nodeTypes = [(''inject'', JNum 2)], activeNodeTypes = [(''inject'', JNum 2)],
       totalNodes = 1 \<rparr>"
  by (simp add: calculateRealNodeMetrics_def unknown_flow_counters node_step_def
      nodeType_of_def nodeId_of_def parse_keys parse_unknown set_add_def obj_get_def obj_set_def
      or0_plus1_def map_get_def plain_type_names)

lemma unknown_flow_flowMetrics:
  "calculateRealFlowMetrics unknown_flow =
     \<lparr> totalFlows = 2, activeFlows = 2, flowIds = [''f1'', ''unknown''] \<rparr>"
  by (simp add: calculateRealFlowMetrics_def Let_def unknown_flow_counters flow_step_def
      flowId_of_def parse_keys parse_unknown set_add_def)

lemma node_step_nodes:
  "snd (snd (node_step e acc)) =
     (if usable (nodeType_of (fst e)) then set_add (snd (snd acc)) (nodeId_of (fst e))
      else snd (snd acc))"
  by (cases acc) (simp add: node_step_def usable_def split: option.splits)

lemma fold_node_step_set:
  "set (snd (snd (fold node_step es acc))) =
     set (snd (snd acc)) \<union> nodeId_of ` {k \<in> fst ` set es. usable (nodeType_of k)}"
proof (induction es arbitrary: acc)
  case Nil
  show ?case by simp
next
  case (Cons e es)
  show ?case
    unfolding fold_simps Cons.IH node_step_nodes by auto
qed

lemma fold_node_step_distinct:
  "distinct (snd (snd acc)) \<Longrightarrow> distinct (snd (snd (fold node_step es acc)))"
proof (induction es arbitrary: acc)
  case Nil
  then show ?case by simp
next
  case (Cons e es)
  have "distinct (snd (snd (node_step e acc)))"
    unfolding node_step_nodes using Cons.prems by simp
  then show ?case
    unfolding fold_simps by (rule Cons.IH)
qed

lemma totalNodes_card:
  "totalNodes (calculateRealNodeMetrics c) =
     int (card (nodeId_of ` {k \<in> fst ` set (messageCounters c). usable (nodeType_of k)}))"
proof -
  let ?r = "fold node_step (messageCounters c) ([], [], [])"
  have d: "distinct (snd (snd ?r))"
    by (rule fold_node_step_distinct) simp
  have s: "set (snd (snd ?r)) =
      nodeId_of ` {k \<in> fst ` set (messageCounters c). usable (nodeType_of k)}"
    unfolding fold_node_step_set by simp
  have "totalNodes (calculateRealNodeMetrics c) = int (length (snd (snd ?r)))"
    by (simp add: calculateRealNodeMetrics_def split: prod.splits)
  also have "\<dots> = int (card (set (snd (snd ?r))))"
    using d by (simp add: distinct_card)
  finally show ?thesis
    unfolding s .
qed

lemma set_node_gauges_flows:
  "flowsTotal (fst (set_node_gauges nm t c)) = flowsTotal c
   \<and> flowsActive (fst (set_node_gauges nm t c)) = flowsActive c"
  by (simp add: set_node_gauges_def split: sum.splits)

lemma forEach_type_flows:
  "flowsTotal (fst (forEach_type nm ts c)) = flowsTotal c
   \<and> flowsActive (fst (forEach_type nm ts c)) = flowsActive c"
proof (induction ts arbitrary: c)
  case Nil
  show ?case by simp
next
  case (Cons t ts)
  obtain c' r where s: "set_node_gauges nm t c = (c', r)"
    by (cases "set_node_gauges nm t c") auto
  have c': "flowsTotal c' = flowsTotal c \<and> flowsActive c' = flowsActive c"
    using set_node_gauges_flows [of nm t c] by (simp add: s)
  show ?case
    using Cons.IH [of c'] c' by (cases r) (simp_all add: s)
qed

section \<open>Claims\<close>

text \<open>
  C1. The send-then-complete scenario, evaluated. The send event increments the counter of
  \<^verbatim>\<open>n1:inject:f1\<close> at once and queues a record, which the flush counts again: the counter
  is 2 when the complete event arrives and stays 2 while it is handled, not 1. The
  complete event records exactly one duration of 0.12 s (3/25) for \<^verbatim>\<open>n1:inject:f1\<close>, and
  queues a record of its own, so the next flush raises the counter to 3.
\<close>

theorem C1_send_flush_complete:
  "messageCounters (metricsCollector engine_sent) = [(''n1:inject:f1'', 1)]
   \<and> messageBatch engine_flushed = [] \<and> flushCount engine_flushed = 1
   \<and> messageCounters (metricsCollector engine_flushed) = [(''n1:inject:f1'', 2)]
   \<and> messageCounters (metricsCollector engine_completed) = [(''n1:inject:f1'', 2)]
   \<and> nodeExecutionTime (metricsCollector engine_completed) (''n1'', ''inject'', ''f1'')
       = Some [Num (3 / 25)]
   \<and> messageCounters (metricsCollector engine_flushed_again) = [(''n1:inject:f1'', 3)]
   \<and> messagesTotal (metricsCollector engine_flushed_again) (''n1'', ''inject'', ''f1'') = Some 3"
  unfolding engine_flushed_again_def engine_completed_def engine_flushed_def engine_sent_def
    engine0_def send_m1_def complete_m1_def
  by code_simp

text \<open>
  C2. Starting from a fresh collector, after any finite sequence of recordMessage calls
  the counter stored for a key is exactly the number of calls made with that key (absent,
  read as 0, when there was none), and the exported counter of a label triple is the
  number of calls made with that triple; at every prefix of the sequence the counter is
  non-negative, and one more call never lowers it.
\<close>

theorem C2_counter_counts_calls:
  "get_or0 (messageCounters (recordMessages (new_collector ci) calls)) k =
     int (length (filter (\<lambda>(n, t, f). mkKey n t f = k) calls))
   \<and> (case messagesTotal (recordMessages (new_collector ci) calls) l of None \<Rightarrow> 0 | Some v \<Rightarrow> v) =
     int (length (filter (\<lambda>call. call = l) calls))
   \<and> 0 \<le> get_or0 (messageCounters (recordMessages (new_collector ci) (take i calls))) k
   \<and> get_or0 (messageCounters (recordMessages (new_collector ci) (take i calls))) k
       \<le> get_or0 (messageCounters (recordMessages (new_collector ci) (take (Suc i) calls))) k"
proof -
  have mono: "length (filter P (take i calls)) \<le> length (filter P (take (Suc i) calls))"
    for P :: "labels3 \<Rightarrow> bool"
  proof (cases "i < length calls")
    case True
    then show ?thesis by (simp add: take_Suc_conv_app_nth)
  next
    case False
    then show ?thesis by simp
  qed
  have "messagesTotal (new_collector ci) l = None"
    by (simp add: new_collector_def)
  then show ?thesis
    by (simp add: messageCounters_recordMessages messagesTotal_recordMessages
        get_or0_new_collector mono)
qed

text \<open>
  C3. Batching with batch size 3, evaluated. Starting with an empty queue and no flush
  timer, the first record arms a flush timer (handle 2, due at 1010); the third triggers
  the one synchronous flush, which empties the queue and sets the batchTimer field to null
  without clearing that timer, so it is still pending. The fourth record finds the field
  null and arms a second timer (handle 3): two flush timers are pending at once.
\<close>

theorem C3_orphaned_flush_timer:
  "flushTimers batch0 = [] \<and> batchTimer batch0 = None \<and> messageBatch batch0 = []
   \<and> batchSize batch0 = 3
   \<and> flushCount batch3 = 1 \<and> messageBatch batch3 = [] \<and> batchTimer batch3 = None
   \<and> map timer_id (flushTimers batch3) = [2]
   \<and> batchTimer batch4 = Some 3
   \<and> map timer_id (flushTimers batch4) = [2, 3]
   \<and> map timer_due (flushTimers batch4) = [1010, 1040]"
  unfolding batch4_def batch3_def batch2_def batch1_def batch0_def
  by code_simp

text \<open>
  C4. After one pass of cleanupTimingEntries the timing table has at most maxTimingEntries
  entries and no remaining entry is older than the maximum age of 60000 ms. When the table
  is a Map (distinct keys) with more entries than the limit, all of them young enough,
  exactly maxTimingEntries entries remain, all of them entries of the old table, the number
  of removed entries is the excess over the limit, and every removed entry started no later
  than every entry that remains. With 1500 entries and a limit of 1000 this leaves exactly
  1000 entries and removes the 500 oldest.
\<close>

theorem C4_sweep_bounds:
  "length (messageStartTimes (cleanupTimingEntries now h)) \<le> maxTimingEntries h
   \<and> (\<forall>e \<in> set (messageStartTimes (cleanupTimingEntries now h)). now - snd e \<le> 60000)
   \<and> (distinct (map fst (messageStartTimes h))
        \<and> (\<forall>e \<in> set (messageStartTimes h). now - snd e \<le> 60000)
        \<and> maxTimingEntries h < length (messageStartTimes h)
      \<longrightarrow> length (messageStartTimes (cleanupTimingEntries now h)) = maxTimingEntries h
        \<and> set (messageStartTimes (cleanupTimingEntries now h)) \<subseteq> set (messageStartTimes h)
        \<and> card (set (messageStartTimes h) - set (messageStartTimes (cleanupTimingEntries now h)))
            = length (messageStartTimes h) - maxTimingEntries h
        \<and> (\<forall>r \<in> set (messageStartTimes h) - set (messageStartTimes (cleanupTimingEntries now h)).
            \<forall>e \<in> set (messageStartTimes (cleanupTimingEntries now h)). snd r \<le> snd e))"
proof -
  define m where "m = messageStartTimes h"
  define lim where "lim = maxTimingEntries h"
  define k where "k = length m - lim"
  define xs where "xs = sort_key snd m"
  define m1 where "m1 = (if length m > lim then filter (\<lambda>e. fst e \<notin> fst ` set (take k xs)) m else m)"
  define m' where "m' = filter (\<lambda>e. fst e \<notin> fst ` {r \<in> set m1. now - snd r > 60000}) m1"
  have m': "messageStartTimes (cleanupTimingEntries now h) = m'"
    by (simp add: cleanup_char Let_def m'_def m1_def m_def lim_def k_def xs_def)
  have len1: "length m1 \<le> lim"
    using length_evicted [of lim m] by (simp add: m1_def k_def xs_def)
  have "length m' \<le> length m1"
    by (simp add: m'_def)
  with len1 have A: "length m' \<le> lim" by simp
  have B: "\<forall>e \<in> set m'. now - snd e \<le> 60000"
    by (force simp: m'_def)
  have C: "length m' = lim \<and> set m' \<subseteq> set m \<and> card (set m - set m') = length m - lim
           \<and> (\<forall>r \<in> set m - set m'. \<forall>e \<in> set m'. snd r \<le> snd e)"
    if dist: "distinct (map fst m)" and young: "\<forall>e \<in> set m. now - snd e \<le> 60000"
      and big: "lim < length m"
  proof -
    have m1: "m1 = filter (\<lambda>e. fst e \<notin> fst ` set (take k xs)) m"
      using big by (simp add: m1_def)
    have eq: "m' = m1"
      unfolding m'_def by (rule filter_True) (use young in \<open>auto simp: m1\<close>)
    have set1: "set m1 = set (drop k xs)" and rem: "set m - set (drop k xs) = set (take k xs)"
      using set_evicted [OF dist, of k] by (simp_all add: m1 xs_def)
    have dm: "distinct m" using dist by (simp add: distinct_map)
    then have dxs: "distinct xs" by (simp add: xs_def)
    have "distinct m1" using dm by (simp add: m1)
    then have "length m1 = card (set (drop k xs))"
      using set1 by (metis distinct_card)
    also have "\<dots> = length (drop k xs)"
      using dxs by (simp add: distinct_card)
    also have "\<dots> = lim" using big by (simp add: xs_def k_def)
    finally have L: "length m1 = lim" .
    have "card (set (take k xs)) = length (take k xs)"
      using dxs by (simp add: distinct_card)
    then have K: "card (set m - set m1) = length m - lim"
      using rem set1 big by (simp add: xs_def k_def)
    have S: "\<forall>r \<in> set m - set m1. \<forall>e \<in> set m1. snd r \<le> snd e"
      unfolding set1 rem using take_drop_sorted [of _ k m] by (auto simp: xs_def)
    show ?thesis
      unfolding eq using L K S by (auto simp: m1)
  qed
  show ?thesis
    unfolding m' using A B C by (simp add: m_def lim_def)
qed

theorem C4_sweep_bounds_witness:
  "length (messageStartTimes hooks1500) = 1500 \<and> maxTimingEntries hooks1500 = 1000
   \<and> length (messageStartTimes (cleanupTimingEntries 2000 hooks1500)) = 1000
   \<and> card (set (messageStartTimes hooks1500) - set (messageStartTimes (cleanupTimingEntries 2000 hooks1500))) = 500"
proof -
  have m: "messageStartTimes hooks1500 = table1500" and l: "maxTimingEntries hooks1500 = 1000"
    by (simp_all add: hooks1500_def new_hooks_def setTimer_def)
  have len: "length table1500 = 1500"
    by (simp add: table1500_def)
  have "inj (\<lambda>i. replicate i (CHR ''m''))"
    by (rule injI) (drule arg_cong [where f = length], simp)
  then have dist: "distinct (map fst table1500)"
    by (simp add: table1500_def comp_def distinct_map inj_on_def)
  have young: "\<forall>e \<in> set table1500. 2000 - snd e \<le> 60000"
    by (auto simp: table1500_def)
  from C4_sweep_bounds [of 2000 hooks1500] dist young len
  have "length (messageStartTimes (cleanupTimingEntries 2000 hooks1500)) = maxTimingEntries hooks1500
      \<and> card (set (messageStartTimes hooks1500) - set (messageStartTimes (cleanupTimingEntries 2000 hooks1500)))
          = length (messageStartTimes hooks1500) - maxTimingEntries hooks1500"
    unfolding m l by simp
  then show ?thesis
    by (simp add: m l len)
qed

text \<open>
  C5 (as amended). On a rate tick, for every key of the counter map whose parsed label
  triple is shared by no other key, the rate written to the gauge is
  max(0, currentTotal - previousSample) / 5: the divisor is the fixed 5 seconds of the
  tick, whatever collection interval is configured. The rate is never negative, it is 0
  when the counter did not grow, the stored sample becomes currentTotal, and the counters
  themselves are untouched. Previous sample 50 and current total 80 give rate 6.
\<close>

theorem C5_rate_tick:
  assumes "(k, currentTotal) \<in> set (messageCounters c)"
    and "distinct (map fst (messageCounters c))"
    and "\<forall>k' \<in> fst ` set (messageCounters c). parseKey k' = parseKey k \<longrightarrow> k' = k"
  shows "messagesPerSecond (calculateMessagesPerSecond c) (parseKey k) =
           Some (of_int (max 0 (currentTotal - get_or0 (lastMessageCounts c) k)) / 5)
       \<and> (0::rat) \<le> of_int (max 0 (currentTotal - get_or0 (lastMessageCounts c) k)) / 5
       \<and> (currentTotal \<le> get_or0 (lastMessageCounts c) k \<longrightarrow>
            messagesPerSecond (calculateMessagesPerSecond c) (parseKey k) = Some 0)
       \<and> map_get (lastMessageCounts (calculateMessagesPerSecond c)) k = Some currentTotal
       \<and> messageCounters (calculateMessagesPerSecond c) = messageCounters c"
proof -
  have rate: "messagesPerSecond (calculateMessagesPerSecond c) (parseKey k) =
           Some (of_int (max 0 (currentTotal - get_or0 (lastMessageCounts c) k)) / 5)"
    unfolding calculateMessagesPerSecond_def using assms(2,1,3) by (rule fold_tick_rate)
  have "map_of (messageCounters c) k = Some currentTotal"
    using assms(1,2) by simp
  then have last: "map_get (lastMessageCounts (calculateMessagesPerSecond c)) k = Some currentTotal"
    using assms(2) by (simp add: map_get_def calculateMessagesPerSecond_def fold_tick_last)
  have same: "messageCounters (fold tick_step es c') = messageCounters c'" for es c'
    by (induction es arbitrary: c') (simp_all add: tick_step_def Let_def)
  show ?thesis
    using rate last same by (auto simp: calculateMessagesPerSecond_def)
qed

theorem C5_rate_tick_witness:
  "messagesPerSecond (calculateMessagesPerSecond (tick_example 5000))
      (Some ''n1'', Some ''inject'', Some ''f1'') = Some 6
   \<and> map_get (lastMessageCounts (calculateMessagesPerSecond (tick_example 5000))) ''n1:inject:f1'' = Some 80"
  using C5_rate_tick [of "''n1:inject:f1''" 80 "tick_example 5000"]
  by (simp add: tick_example_def new_collector_def parse_example get_or0_def map_get_def)

text \<open>
  The claim as stated divides by the configured collection interval: with an interval of
  10000 ms configured, previous sample 50 and current total 80, that would be rate 3; the
  tick writes 6.
\<close>

theorem C5_configured_interval_counterexample:
  "collectInterval (tick_example 10000) = 10000
   \<and> messagesPerSecond (calculateMessagesPerSecond (tick_example 10000))
        (Some ''n1'', Some ''inject'', Some ''f1'') = Some 6
   \<and> spec_rate (collectInterval (tick_example 10000)) 80 50 = 3
   \<and> messagesPerSecond (calculateMessagesPerSecond (tick_example 10000)) (parseKey ''n1:inject:f1'')
       \<noteq> Some (spec_rate (collectInterval (tick_example 10000)) 80
                 (get_or0 (lastMessageCounts (tick_example 10000)) ''n1:inject:f1''))"
  by (simp add: tick_example_def new_collector_def calculateMessagesPerSecond_def tick_step_def
      Let_def parse_example get_or0_def map_get_def spec_rate_def)

text \<open>
  C6 (as amended). recordNodeExecution checks nothing itself and passes the duration to the
  histogram. A duration that is not finite (NaN, an infinity) is rejected with the
  histogram's TypeError and nothing is recorded; every finite duration, a negative one
  included, is recorded unchanged under the labels (nodeId, nodeType, flowId), and nothing
  else changes.
\<close>

theorem C6_duration_passed_to_histogram:
  "(isFinite d \<longrightarrow>
      (case recordNodeExecution c n t f d of
         Inl e \<Rightarrow> False
       | Inr c' \<Rightarrow>
           nodeExecutionTime c' (n, t, f) =
             Some ((case nodeExecutionTime c (n, t, f) of None \<Rightarrow> [] | Some vs \<Rightarrow> vs) @ [d])
           \<and> (\<forall>l. l \<noteq> (n, t, f) \<longrightarrow> nodeExecutionTime c' l = nodeExecutionTime c l)
           \<and> messageCounters c' = messageCounters c \<and> errorsTotal c' = errorsTotal c))
   \<and> (\<not> isFinite d \<longrightarrow> recordNodeExecution c n t f d = Inl TypeError)
   \<and> recordNodeExecution c n t f NaN = Inl TypeError
   \<and> recordNodeExecution c n t f (Num q) \<noteq> Inl TypeError"
  by (simp add: recordNodeExecution_def observe_def)

theorem C6_duration_passed_to_histogram_witness:
  "isFinite (Num (3 / 25)) \<and> \<not> isFinite NaN
   \<and> (case recordNodeExecution (new_collector 5000) ''n1'' ''inject'' ''f1'' (Num (3 / 25)) of
         Inl e \<Rightarrow> False
       | Inr c' \<Rightarrow> nodeExecutionTime c' (''n1'', ''inject'', ''f1'') = Some [Num (3 / 25)])
   \<and> recordNodeExecution (new_collector 5000) ''n1'' ''inject'' ''f1'' NaN = Inl TypeError"
  using C6_duration_passed_to_histogram
    [where d = "Num (3 / 25)" and c = "new_collector 5000" and n = "''n1''" and t = "''inject''"
       and f = "''f1''" and q = 0]
  by (auto simp: new_collector_def split: sum.splits)

text \<open>
  The claim as stated has a negative duration rejected with an error. The duration -1 is
  accepted and recorded.
\<close>

theorem C6_negative_duration_counterexample:
  "(case recordNodeExecution (new_collector 5000) ''n1'' ''inject'' ''f1'' (Num (- 1)) of
      Inl e \<Rightarrow> False
    | Inr c' \<Rightarrow> nodeExecutionTime c' (''n1'', ''inject'', ''f1'') = Some [Num (- 1)])"
  by (simp add: recordNodeExecution_def observe_def new_collector_def)

text \<open>
  C7. stop() after the synchronous flush, evaluated. The three handle fields are null, the
  cleanup and update intervals (handles 0 and 1) are cleared, the queue and the timing
  table are empty; the flush timer armed by the first record (handle 2) is not cleared by
  stop and is still pending. It fires when due and then finds nothing to flush.
\<close>

theorem C7_stop_leaves_flush_timer:
  "updateInterval stopped = None \<and> cleanupTimer stopped = None \<and> batchTimer stopped = None
   \<and> messageBatch stopped = [] \<and> messageStartTimes stopped = []
   \<and> map timer_id (timers batch3) = [0, 1, 2]
   \<and> map timer_id (timers stopped) = [2]
   \<and> map timer_callback (timers stopped) = [ProcessBatch]
   \<and> timers (fireTimer 1010 2 stopped) = []"
  unfolding stopped_def batch3_def batch2_def batch1_def batch0_def
  by code_simp

text \<open>
  C8. Two keys of one node, evaluated: node \<^verbatim>\<open>n1\<close> of type \<^verbatim>\<open>inject\<close> observed once with
  flow id \<^verbatim>\<open>f1\<close> and once with the flow id defaulted to \<^verbatim>\<open>unknown\<close>. The inventory is
  recomputed from the two keys; the function's own tally of unique nodes is 1, and there
  is one distinct nodeId of type \<^verbatim>\<open>inject\<close>, but the per-type count, and the total-nodes
  gauge set from it, is 2: the count goes up once per key. The total-flows value, 2, is
  the number of distinct flowIds.
\<close>

theorem C8_node_counted_per_key:
  "messageCounters unknown_flow = [(''n1:inject:f1'', 1), (''n1:inject:unknown'', 1)]
   \<and> nodeTypes (calculateRealNodeMetrics unknown_flow) = [(''inject'', JNum 2)]
   \<and> totalNodes (calculateRealNodeMetrics unknown_flow) = 1
   \<and> snd (updateMetricsFromRealData unknown_flow) =
        Inr (calculateRealFlowMetrics unknown_flow, calculateRealNodeMetrics unknown_flow)
   \<and> nodesTotal (fst (updateMetricsFromRealData unknown_flow)) ''inject'' = Some 2
   \<and> spec_nodes_of_type (map fst (messageCounters unknown_flow)) ''inject'' = 1
   \<and> totalFlows (calculateRealFlowMetrics unknown_flow) = 2
   \<and> flowsTotal (fst (updateMetricsFromRealData unknown_flow)) = 2
   \<and> spec_flows (map fst (messageCounters unknown_flow)) = 2"
proof -
  have keys: "object_keys [(''inject'', JNum 2)] = [''inject'']"
    by (simp add: object_keys_def plain_type_names)
  have u: "snd (updateMetricsFromRealData unknown_flow) =
        Inr (calculateRealFlowMetrics unknown_flow, calculateRealNodeMetrics unknown_flow)"
    "flowsTotal (fst (updateMetricsFromRealData unknown_flow)) = 2"
    "nodesTotal (fst (updateMetricsFromRealData unknown_flow)) ''inject'' = Some 2"
    by (simp_all add: updateMetricsFromRealData_def Let_def unknown_flow_flowMetrics
        calculate_depends_on_counters [of _ unknown_flow] unknown_flow_nodeMetrics keys
        set_node_gauges_def gauge_set_def obj_get_def map_get_def)
  have "{k. (k = ''n1:inject:f1'' \<or> k = ''n1:inject:unknown'') \<and> nodeType_of k = Some ''inject''}
        = {''n1:inject:f1'', ''n1:inject:unknown''}"
    by (auto simp: nodeType_of_def parse_keys parse_unknown)
  then have n: "spec_nodes_of_type (map fst (messageCounters unknown_flow)) ''inject'' = 1"
    by (simp add: spec_nodes_of_type_def unknown_flow_counters nodeId_of_def parse_keys parse_unknown)
  have f: "spec_flows (map fst (messageCounters unknown_flow)) = 2"
    by (simp add: spec_flows_def unknown_flow_counters flowId_of_def parse_keys parse_unknown)
  show ?thesis
    using u n f
    by (simp add: unknown_flow_counters unknown_flow_nodeMetrics unknown_flow_flowMetrics)
qed

text \<open>
  C9. For every triple of strings (nodeId, nodeType, flowId) none of which contains the
  colon, building the colon-joined key and splitting it at the colons gives back exactly
  the three fields, and so does the destructuring the collector applies to the pieces.
\<close>

theorem C9_key_roundtrip:
  assumes "CHR '':'' \<notin> set nodeId" and "CHR '':'' \<notin> set nodeType" and "CHR '':'' \<notin> set flowId"
  shows "split (mkKey nodeId nodeType flowId) = [nodeId, nodeType, flowId]
       \<and> parseKey (mkKey nodeId nodeType flowId) = (Some nodeId, Some nodeType, Some flowId)"
proof -
  have "split (mkKey nodeId nodeType flowId) = [nodeId, nodeType, flowId]"
    using assms by (simp add: split_def mkKey_def split_acc_no_sep split_acc_last)
  then show ?thesis by (simp add: parseKey_def destructure3_def numeral_2_eq_2)
qed

theorem C9_key_roundtrip_witness:
  "CHR '':'' \<notin> set ''n1'' \<and> CHR '':'' \<notin> set ''inject'' \<and> CHR '':'' \<notin> set ''f1''
   \<and> split (mkKey ''n1'' ''inject'' ''f1'') = [''n1'', ''inject'', ''f1'']
   \<and> split ''n1:inject:f1'' = [''n1'', ''inject'', ''f1'']"
  using C9_key_roundtrip [of "''n1''" "''inject''" "''f1''"]
  by (simp add: mkKey_def)

text \<open>
  C10. In every state produced by updateMetricsFromRealData from a reachable collector
  state (also when the call throws part-way), the active-flows gauge equals the total-flows
  gauge and, for every node type, the active-nodes gauge equals the total-nodes gauge; the
  computed activeFlows and activeNodeTypes equal totalFlows and nodeTypes, and they are what
  the call returns when it returns; and the gauges agree in the reachable state itself.
\<close>

theorem C10_active_equals_total:
  assumes "reachable c"
  shows "flowsActive (fst (updateMetricsFromRealData c)) = flowsTotal (fst (updateMetricsFromRealData c))
       \<and> nodesActive (fst (updateMetricsFromRealData c)) t = nodesTotal (fst (updateMetricsFromRealData c)) t
       \<and> activeFlows (calculateRealFlowMetrics c) = totalFlows (calculateRealFlowMetrics c)
       \<and> activeNodeTypes (calculateRealNodeMetrics c) = nodeTypes (calculateRealNodeMetrics c)
       \<and> (\<forall>fm nm. snd (updateMetricsFromRealData c) = Inr (fm, nm) \<longrightarrow>
            fm = calculateRealFlowMetrics c \<and> nm = calculateRealNodeMetrics c
            \<and> activeFlows fm = totalFlows fm \<and> activeNodeTypes nm = nodeTypes nm)
       \<and> flowsActive c = flowsTotal c \<and> nodesActive c t = nodesTotal c t"
proof -
  have "gauges_agree c"
    using assms by (rule reachable_gauges_agree)
  moreover from this have "gauges_agree (fst (updateMetricsFromRealData c))"
    by (rule update_gauges_agree)
  moreover have "fm = calculateRealFlowMetrics c \<and> nm = calculateRealNodeMetrics c"
    if "snd (updateMetricsFromRealData c) = Inr (fm, nm)" for fm nm
    using update_result [OF that] by simp
  ultimately show ?thesis
    by (auto simp: gauges_agree_def activeFlows_eq activeNodeTypes_eq)
qed

theorem C10_active_equals_total_witness:
  "reachable two_flows
   \<and> snd (updateMetricsFromRealData two_flows) =
        Inr (calculateRealFlowMetrics two_flows, calculateRealNodeMetrics two_flows)
   \<and> flowsTotal (fst (updateMetricsFromRealData two_flows)) = 2
   \<and> flowsActive (fst (updateMetricsFromRealData two_flows)) = 2
   \<and> nodesTotal (fst (updateMetricsFromRealData two_flows)) ''inject'' = Some 2
   \<and> nodesActive (fst (updateMetricsFromRealData two_flows)) ''inject'' = Some 2"
proof -
  have r: "reachable two_flows"
    unfolding two_flows_def by (rule reachable_recordMessages) (rule reachable.fresh)
  have keys: "object_keys [(''inject'', JNum 2), (''debug'', JNum 1)] = [''inject'', ''debug'']"
    by (simp add: object_keys_def plain_type_names)
  have u: "snd (updateMetricsFromRealData two_flows) =
        Inr (calculateRealFlowMetrics two_flows, calculateRealNodeMetrics two_flows)"
    "flowsTotal (fst (updateMetricsFromRealData two_flows)) = 2"
    "nodesTotal (fst (updateMetricsFromRealData two_flows)) ''inject'' = Some 2"
    by (simp_all add: updateMetricsFromRealData_def Let_def two_flows_flowMetrics
        calculate_depends_on_counters [of _ two_flows] two_flows_nodeMetrics keys
        set_node_gauges_def gauge_set_def obj_get_def map_get_def)
  then show ?thesis
    using C10_active_equals_total [OF r, of "''inject''"] r by simp
qed

section \<open>Batching and shutdown: what holds\<close>

text \<open>
  X1. Reaching the batch size. From an empty queue, with a batch size of at least 1, enqueueing
  exactly batchSize records flushes exactly once, synchronously: the flush count grows by
  one, the queue is empty, the batchTimer field is null, and the counters have received
  every record, in arrival order.
\<close>

theorem batch_full_one_flush:
  assumes "messageBatch h = []" and "0 < batchSize h" and "length es = batchSize h"
  shows "flushCount (addAll h es) = Suc (flushCount h)
       \<and> messageBatch (addAll h es) = []
       \<and> batchTimer (addAll h es) = None
       \<and> metricsCollector (addAll h es) = recordBatch (metricsCollector h) (map to_record es)"
proof -
  obtain es' e where es: "es = es' @ [e]"
    using assms(2,3) by (cases es rule: rev_cases) auto
  obtain now n t f ty where e: "e = (now, n, t, f, ty)" by (cases e) auto
  have q: "messageBatch (addAll h es') = map to_record es'
       \<and> flushCount (addAll h es') = flushCount h
       \<and> metricsCollector (addAll h es') = metricsCollector h
       \<and> batchSize (addAll h es') = batchSize h"
    using addAll_queue [of h es'] assms es by simp
  then have "Suc (length (messageBatch (addAll h es'))) = batchSize (addAll h es')"
    using assms(3) es by simp
  then show ?thesis
    using q by (simp add: es e addAll_snoc addToBatch_full)
qed

theorem batch_full_one_flush_witness:
  "messageBatch batch0 = [] \<and> batchSize batch0 = 3 \<and> length three_sends = 3
   \<and> flushCount (addAll batch0 three_sends) = 1
   \<and> messageBatch (addAll batch0 three_sends) = []
   \<and> batchTimer (addAll batch0 three_sends) = None"
  using batch_full_one_flush [of batch0 three_sends]
  by (simp add: batch0_fields) (simp add: three_sends_def)

text \<open>
  X2. Staying below the batch size. From an empty queue with no flush timer pending, enqueueing
  at least one and fewer than batchSize records flushes nothing and leaves exactly one
  flush timer pending, due one flush interval after the first record; when that timer
  fires, exactly one flush takes place, the counters receive every record in arrival
  order, the queue is empty and no flush timer is pending.
\<close>

theorem batch_below_one_timer_flush:
  assumes "messageBatch h = []" and "batchTimer h = None" and "flushTimers h = []"
    and "\<forall>t \<in> set (timers h). timer_id t \<noteq> nextTimerId h"
    and "es \<noteq> []" and "length es < batchSize h"
    and "fst (hd es) + flushInterval h \<le> now"
  shows "flushCount (addAll h es) = flushCount h
       \<and> messageBatch (addAll h es) = map to_record es
       \<and> batchTimer (addAll h es) = Some (nextTimerId h)
       \<and> map timer_id (flushTimers (addAll h es)) = [nextTimerId h]
       \<and> map timer_due (flushTimers (addAll h es)) = [fst (hd es) + flushInterval h]
       \<and> flushCount (fireTimer now (nextTimerId h) (addAll h es)) = Suc (flushCount h)
       \<and> messageBatch (fireTimer now (nextTimerId h) (addAll h es)) = []
       \<and> batchTimer (fireTimer now (nextTimerId h) (addAll h es)) = None
       \<and> flushTimers (fireTimer now (nextTimerId h) (addAll h es)) = []
       \<and> metricsCollector (fireTimer now (nextTimerId h) (addAll h es)) =
           recordBatch (metricsCollector h) (map to_record es)"
proof -
  define new where "new = \<lparr> timer_id = nextTimerId h, timer_callback = ProcessBatch,
             timer_due = fst (hd es) + flushInterval h, timer_period = None \<rparr>"
  define h' where "h' = addAll h es"
  have h': "h' = h\<lparr> messageBatch := map to_record es, timers := timers h @ [new],
        nextTimerId := Suc (nextTimerId h), batchTimer := Some (nextTimerId h) \<rparr>"
    unfolding h'_def new_def using assms(2,1,6,5) by (rule addAll_below)
  have nofind: "find (\<lambda>t. timer_id t = nextTimerId h) (timers h) = None"
    using assms(4) by (simp add: find_None_iff)
  have found: "find (\<lambda>t. timer_id t = nextTimerId h) (timers h') = Some new"
    by (simp add: h' find_append_None nofind new_def)
  have keep: "filter (\<lambda>t. timer_id t \<noteq> nextTimerId h) (timers h) = timers h"
    using assms(4) by (simp add: filter_id_conv)
  define h1 where "h1 = clearTimer (nextTimerId h) h'"
  have h1: "h1 = h'\<lparr> timers := timers h \<rparr>"
    by (simp add: h1_def clearTimer_def h' keep new_def)
  have fire: "fireTimer now (nextTimerId h) h' = processBatch now h1"
    using assms(7) by (simp add: fireTimer_def found h1_def run_callback_def new_def)
  have "messageBatch h1 \<noteq> []" "length (messageBatch h1) \<le> batchSize h1"
    using assms(5,6) by (simp_all add: h1 h')
  then have pb: "processBatch now h1 =
         h1\<lparr> messageBatch := [],
            metricsCollector := recordBatch (metricsCollector h1) (messageBatch h1),
            flushCount := Suc (flushCount h1),
            batchTimer := None \<rparr>"
    by (rule processBatch_all)
  have before: "flushCount h' = flushCount h \<and> messageBatch h' = map to_record es
       \<and> batchTimer h' = Some (nextTimerId h)
       \<and> map timer_id (flushTimers h') = [nextTimerId h]
       \<and> map timer_due (flushTimers h') = [fst (hd es) + flushInterval h]"
    using assms(3) by (simp add: h' flushTimers_def new_def)
  have after: "flushCount (fireTimer now (nextTimerId h) h') = Suc (flushCount h)
       \<and> messageBatch (fireTimer now (nextTimerId h) h') = []
       \<and> batchTimer (fireTimer now (nextTimerId h) h') = None
       \<and> flushTimers (fireTimer now (nextTimerId h) h') = []
       \<and> metricsCollector (fireTimer now (nextTimerId h) h') =
           recordBatch (metricsCollector h) (map to_record es)"
    unfolding fire pb using assms(3) by (simp add: h1 h' flushTimers_def)
  show ?thesis
    using before after unfolding h'_def by simp
qed

theorem batch_below_one_timer_flush_witness:
  "length two_sends < batchSize batch0
   \<and> flushCount (addAll batch0 two_sends) = 0
   \<and> map timer_id (flushTimers (addAll batch0 two_sends)) = [2]
   \<and> map timer_due (flushTimers (addAll batch0 two_sends)) = [1010]
   \<and> flushCount (fireTimer 1010 2 (addAll batch0 two_sends)) = 1
   \<and> messageBatch (fireTimer 1010 2 (addAll batch0 two_sends)) = []
   \<and> flushTimers (fireTimer 1010 2 (addAll batch0 two_sends)) = []"
proof -
  have ids: "\<forall>t \<in> set (timers batch0). timer_id t \<noteq> nextTimerId batch0"
    by (simp add: batch0_def startPeriodicUpdates_def new_hooks_def setTimer_def)
  have "two_sends \<noteq> []" "length two_sends < batchSize batch0"
    "fst (hd two_sends) + flushInterval batch0 \<le> 1010"
    by (simp_all add: two_sends_def batch0_fields)
  from batch_below_one_timer_flush [OF batch0_fields(1,4,5) ids this]
  show ?thesis
    by (simp add: batch0_fields) (simp add: two_sends_def)
qed

text \<open>
  X3. Shutdown. When the queue holds at most batchSize records, stop() records every queued
  record before it discards the queue and the timing table; the three handle fields are
  null afterwards, no timer is added, and the timers the three handles referred to are gone
  from the event loop.
\<close>

theorem stop_flushes_queue:
  assumes "length (messageBatch h) \<le> batchSize h"
  shows "metricsCollector (stop now h) = recordBatch (metricsCollector h) (messageBatch h)
       \<and> messageBatch (stop now h) = [] \<and> messageStartTimes (stop now h) = []
       \<and> updateInterval (stop now h) = None \<and> cleanupTimer (stop now h) = None
       \<and> batchTimer (stop now h) = None
       \<and> set (timers (stop now h)) \<subseteq> set (timers h)
       \<and> (\<forall>t \<in> set (timers (stop now h)).
            Some (timer_id t) \<noteq> updateInterval h \<and> Some (timer_id t) \<noteq> cleanupTimer h
            \<and> Some (timer_id t) \<noteq> batchTimer h)"
proof -
  define h3 where "h3 =
     (let h1 = (case updateInterval h of
                  None \<Rightarrow> h | Some i \<Rightarrow> (clearTimer i h)\<lparr> updateInterval := None \<rparr>);
          h2 = (case cleanupTimer h1 of
                  None \<Rightarrow> h1 | Some i \<Rightarrow> (clearTimer i h1)\<lparr> cleanupTimer := None \<rparr>)
      in (case batchTimer h2 of
                  None \<Rightarrow> h2 | Some i \<Rightarrow> (clearTimer i h2)\<lparr> batchTimer := None \<rparr>))"
  have stop: "stop now h = (processBatch now h3)\<lparr> messageStartTimes := [], messageBatch := [] \<rparr>"
    by (simp add: stop_def h3_def Let_def)
  have h3: "messageBatch h3 = messageBatch h" "batchSize h3 = batchSize h"
    "metricsCollector h3 = metricsCollector h"
    "updateInterval h3 = None" "cleanupTimer h3 = None" "batchTimer h3 = None"
    "timers h3 = filter (\<lambda>t. Some (timer_id t) \<noteq> updateInterval h
        \<and> Some (timer_id t) \<noteq> cleanupTimer h \<and> Some (timer_id t) \<noteq> batchTimer h) (timers h)"
    by (auto simp: h3_def Let_def clearTimer_def split: option.splits intro: filter_cong)
  show ?thesis
  proof (cases "messageBatch h = []")
    case True
    then have "processBatch now h3 = h3"
      by (simp add: processBatch_empty h3)
    then show ?thesis
      using True by (simp add: stop h3 recordBatch_def)
  next
    case False
    then have "processBatch now h3 =
         h3\<lparr> messageBatch := [],
            metricsCollector := recordBatch (metricsCollector h3) (messageBatch h3),
            flushCount := Suc (flushCount h3),
            batchTimer := None \<rparr>"
      using assms by (intro processBatch_all) (simp_all add: h3)
    then show ?thesis
      by (simp add: stop h3)
  qed
qed

theorem stop_flushes_queue_witness:
  "length (messageBatch batch2) \<le> batchSize batch2
   \<and> messageCounters (metricsCollector batch2) = []
   \<and> messageCounters (metricsCollector (stop 50 batch2)) = [(''n1:inject:f1'', 2)]
   \<and> messageBatch (stop 50 batch2) = [] \<and> timers (stop 50 batch2) = []"
proof -
  have b2: "messageBatch batch2 =
      [\<lparr> rec_nodeId = ''n1'', rec_nodeType = ''inject'', rec_flowId = ''f1'', rec_type = ''send'' \<rparr>,
       \<lparr> rec_nodeId = ''n1'', rec_nodeType = ''inject'', rec_flowId = ''f1'', rec_type = ''send'' \<rparr>]"
    "batchSize batch2 = 3" "metricsCollector batch2 = new_collector 5000"
    "map timer_id (timers batch2) = [0, 1, 2]"
    "updateInterval batch2 = Some 1" "cleanupTimer batch2 = Some 0" "batchTimer batch2 = Some 2"
    by (simp_all add: batch2_def batch1_def addToBatch_def Let_def batch0_fields setTimer_def
        batch0_def startPeriodicUpdates_def new_hooks_def)
  have le: "length (messageBatch batch2) \<le> batchSize batch2"
    by (simp add: b2)
  have cnt: "messageCounters (recordBatch (new_collector 5000) (messageBatch batch2)) = [(''n1:inject:f1'', 2)]"
    by (simp add: b2 recordBatch_def recordMessage_def Let_def new_collector_def mkKey_def
        get_or0_def map_get_def)
  have none: "timers (stop 50 batch2) = []"
  proof (cases "timers (stop 50 batch2)")
    case Nil
    then show ?thesis .
  next
    case (Cons t ts)
    then have t: "t \<in> set (timers (stop 50 batch2))" by simp
    with stop_flushes_queue [OF le, of 50]
    have "t \<in> set (timers batch2)" "timer_id t \<noteq> 1" "timer_id t \<noteq> 0" "timer_id t \<noteq> 2"
      by (auto simp: b2)
    moreover from this(1) have "timer_id t \<in> set (map timer_id (timers batch2))"
      by simp
    ultimately show ?thesis
      by (simp add: b2)
  qed
  show ?thesis
    using stop_flushes_queue [OF le, of 50] cnt none
    by (simp add: b2 new_collector_def)
qed

text \<open>
  X4. The queue stays below the batch size: every operation of the engine that touches the
  queue, started with fewer than batchSize records queued, ends with fewer than batchSize
  records queued. The constructor starts with none, so with a batch size of at least 1
  the hypothesis of the shutdown property holds whenever stop() is called.
\<close>

theorem queue_below_batchSize:
  assumes "length (messageBatch h) < batchSize h"
  shows "length (messageBatch (addToBatch now h n t f ty)) < batchSize (addToBatch now h n t f ty)
       \<and> length (messageBatch (processBatch now h)) < batchSize (processBatch now h)
       \<and> length (messageBatch (handleSendEvent now g h ev)) < batchSize (handleSendEvent now g h ev)
       \<and> length (messageBatch (handleReceiveEvent now g h ev)) < batchSize (handleReceiveEvent now g h ev)
       \<and> length (messageBatch (handleCompleteEvent now h ev)) < batchSize (handleCompleteEvent now h ev)
       \<and> length (messageBatch (fireTimer now i h)) < batchSize (fireTimer now i h)
       \<and> length (messageBatch (cleanupTimingEntries now h)) < batchSize (cleanupTimingEntries now h)"
proof -
  have send: "length (messageBatch (handleSendEvent now g h ev)) < batchSize (handleSendEvent now g h ev)"
    unfolding handleSendEvent_queue using assms by (intro conjunct1 [OF addToBatch_keeps_below]) simp
  have recv: "length (messageBatch (handleReceiveEvent now g h ev)) < batchSize (handleReceiveEvent now g h ev)"
    unfolding handleReceiveEvent_queue using assms by (intro conjunct1 [OF addToBatch_keeps_below])
  have comp: "length (messageBatch (handleCompleteEvent now h ev)) < batchSize (handleCompleteEvent now h ev)"
    unfolding handleCompleteEvent_queue using assms by (intro conjunct1 [OF addToBatch_keeps_below])
  have clean: "length (messageBatch (cleanupTimingEntries now h)) < batchSize (cleanupTimingEntries now h)"
    using assms by (simp add: cleanupTimingEntries_def Let_def)
  show ?thesis
    using addToBatch_keeps_below [OF assms, of now n t f ty] processBatch_below [OF assms, of now]
      fireTimer_below [OF assms, of now i] send recv comp clean
    by simp
qed

theorem queue_below_batchSize_witness:
  "length (messageBatch batch2) < batchSize batch2
   \<and> length (messageBatch (addToBatch 30 batch2 ''n1'' ''inject'' ''f1'' ''send'')) < 3
   \<and> length (messageBatch (processBatch 30 batch2)) < 3"
proof -
  have b2: "length (messageBatch batch2) = 2" "batchSize batch2 = 3"
    by (simp_all add: batch2_def batch1_def addToBatch_def Let_def batch0_fields setTimer_def
        batch0_def startPeriodicUpdates_def new_hooks_def)
  have lt: "length (messageBatch batch2) < batchSize batch2"
    by (simp add: b2)
  have bs: "batchSize (addToBatch 30 batch2 ''n1'' ''inject'' ''f1'' ''send'') = 3"
    "batchSize (processBatch 30 batch2) = 3"
    using addToBatch_keeps_below [OF lt, of 30 "''n1''" "''inject''" "''f1''" "''send''"]
      processBatch_below [OF lt, of 30]
    by (simp_all add: b2)
  from queue_below_batchSize [OF lt, of 30 "''n1''" "''inject''" "''f1''" "''send''"]
  show ?thesis
    by (simp add: bs b2)
qed

section \<open>Inventory: what holds\<close>

text \<open>
  X5. The inventory tallies. The total-flows value is the number of distinct flowIds parsed
  from the counter-map keys, leaving out the empty string and the literal \<^verbatim>\<open>undefined\<close>;
  the unique-node tally (totalNodes) is the number of distinct nodeIds among the keys whose
  nodeType is neither empty nor \<^verbatim>\<open>undefined\<close>. Both computations read the counter map and
  nothing else, and once a flow is counted both flow gauges are set to the total-flows
  value, whatever happens to the node gauges afterwards.
\<close>

theorem inventory_tallies:
  "totalFlows (calculateRealFlowMetrics c) =
     int (card {f. \<exists>k \<in> fst ` set (messageCounters c).
                 flowId_of k = Some f \<and> f \<noteq> [] \<and> f \<noteq> ''undefined''})
   \<and> totalNodes (calculateRealNodeMetrics c) =
     int (card (nodeId_of ` {k \<in> fst ` set (messageCounters c). usable (nodeType_of k)}))
   \<and> (messageCounters c' = messageCounters c \<longrightarrow>
        calculateRealFlowMetrics c' = calculateRealFlowMetrics c
        \<and> calculateRealNodeMetrics c' = calculateRealNodeMetrics c)
   \<and> (0 < totalFlows (calculateRealFlowMetrics c) \<longrightarrow>
        flowsTotal (fst (updateMetricsFromRealData c)) = totalFlows (calculateRealFlowMetrics c)
        \<and> flowsActive (fst (updateMetricsFromRealData c)) = totalFlows (calculateRealFlowMetrics c))"
  using totalFlows_card [of c] totalNodes_card [of c] calculate_depends_on_counters [of c' c]
  by (simp add: update_state Let_def forEach_type_flows activeFlows_eq)

theorem inventory_tallies_witness:
  "totalFlows (calculateRealFlowMetrics two_flows) = 2
   \<and> totalNodes (calculateRealNodeMetrics two_flows) = 3
   \<and> card {f. \<exists>k \<in> fst ` set (messageCounters two_flows).
                 flowId_of k = Some f \<and> f \<noteq> [] \<and> f \<noteq> ''undefined''} = 2
   \<and> flowsTotal (fst (updateMetricsFromRealData two_flows)) = 2"
  using inventory_tallies [of two_flows two_flows]
  by (simp add: two_flows_flowMetrics two_flows_nodeMetrics)

text \<open>
  X6. A node type named like a member of \<^verbatim>\<open>Object.prototype\<close>, evaluated: for the types
  \<^verbatim>\<open>inject\<close>, \<^verbatim>\<open>constructor\<close>, \<^verbatim>\<open>debug\<close> (one node each) the dictionary holds a string
  for \<^verbatim>\<open>constructor\<close>, not a count; updateMetricsFromRealData sets the flow gauges and the
  gauge of \<^verbatim>\<open>inject\<close>, then throws a TypeError at \<^verbatim>\<open>constructor\<close>, and the gauge of
  \<^verbatim>\<open>debug\<close> is not set.
\<close>

theorem prototype_member_type_throws:
  "nodeTypes (calculateRealNodeMetrics constructor_type) =
     [(''inject'', JNum 1), (''constructor'', JStr ''function Object() { [native code] }1''),
      (''debug'', JNum 1)]
   \<and> snd (updateMetricsFromRealData constructor_type) = Inl TypeError
   \<and> flowsTotal (fst (updateMetricsFromRealData constructor_type)) = 1
   \<and> nodesTotal (fst (updateMetricsFromRealData constructor_type)) ''inject'' = Some 1
   \<and> nodesTotal (fst (updateMetricsFromRealData constructor_type)) ''constructor'' = None
   \<and> nodesTotal (fst (updateMetricsFromRealData constructor_type)) ''debug'' = None"
  unfolding constructor_type_def
  by code_simp

end
